theory Spec2Isabelle
  imports Main
begin

section \<open>Text\<close>

text \<open>
  A Python \<open>str\<close> is a sequence of Unicode code points.  Code points are natural
  numbers here, so that the tests of the detection pattern see the same units the
  regular-expression engine sees.  \<open>py\<close> embeds an ASCII literal.
\<close>

type_synonym codepoint = nat
type_synonym pystr = "codepoint list"

definition py :: "string \<Rightarrow> pystr" where
  "py s = map of_char s"

text \<open>
  Whitespace, as \<open>str.strip()\<close> and the pattern escape \<open>\s\<close> see it for \<open>str\<close>
  arguments (CPython's \<open>Py_UNICODE_ISSPACE\<close>): the ASCII controls 9-13 and 28-31,
  the space, and the Unicode separators listed.
\<close>

definition is_space :: "codepoint \<Rightarrow> bool" where
  "is_space c \<longleftrightarrow>
     (9 \<le> c \<and> c \<le> 13) \<or> (28 \<le> c \<and> c \<le> 32) \<or> c = 133 \<or> c = 160 \<or> c = 5760 \<or>
     (8192 \<le> c \<and> c \<le> 8202) \<or> c = 8232 \<or> c = 8233 \<or> c = 8239 \<or> c = 8287 \<or>
     c = 12288"

text \<open>
  Word characters, as \<open>\b\<close> sees them: alphanumerics and the underscore.  Above ASCII
  the alphanumerics are a table of the Unicode database, which the program does not
  contain; it is the parameter \<open>ua\<close>.
\<close>

definition is_word :: "(codepoint \<Rightarrow> bool) \<Rightarrow> codepoint \<Rightarrow> bool" where
  "is_word ua c \<longleftrightarrow>
     (if c < 128
      then (48 \<le> c \<and> c \<le> 57) \<or> (65 \<le> c \<and> c \<le> 90) \<or> (97 \<le> c \<and> c \<le> 122) \<or> c = 95
      else ua c)"

section \<open>The regular-expression fragment used by the detector\<close>

text \<open>
  The pattern of \<open>pseudonymize_text\<close> uses three constructs: a single character of a
  class, a greedy \<open>+\<close> over a class, and the word boundary \<open>\b\<close>.  A class is a range
  of code points (\<open>[A-Z]\<close>) or \<open>\s\<close>.
\<close>

datatype cls = Between codepoint codepoint | Space

datatype atom = Boundary | Single cls | Many cls

fun in_cls :: "cls \<Rightarrow> codepoint \<Rightarrow> bool" where
  "in_cls (Between lo hi) c \<longleftrightarrow> lo \<le> c \<and> c \<le> hi"
| "in_cls Space c \<longleftrightarrow> is_space c"

text \<open>
  \<open>\b\<close> holds between the character before the position (none at the start of the
  text) and the character at it (none at the end) when exactly one of the two is a word
  character.
\<close>

definition at_boundary :: "(codepoint \<Rightarrow> bool) \<Rightarrow> codepoint option \<Rightarrow> pystr \<Rightarrow> bool" where
  "at_boundary ua prev rest \<longleftrightarrow>
     (case prev of None \<Rightarrow> False | Some p \<Rightarrow> is_word ua p) \<noteq>
     (case rest of [] \<Rightarrow> False | c # _ \<Rightarrow> is_word ua c)"

text \<open>
  The backtracking matcher.  \<open>rmatch ua ps prev rest\<close> matches the atoms \<open>ps\<close> at the
  position whose preceding character is \<open>prev\<close> and whose remaining text is \<open>rest\<close>; it
  returns the text left after the match.  \<open>Many\<close> is greedy: it first tries to take one
  more character and falls back to the rest of the pattern when that fails.
\<close>

fun rmatch :: "(codepoint \<Rightarrow> bool) \<Rightarrow> atom list \<Rightarrow> codepoint option \<Rightarrow> pystr \<Rightarrow> pystr option" where
  "rmatch ua [] prev rest = Some rest"
| "rmatch ua (Boundary # ps) prev rest =
     (if at_boundary ua prev rest then rmatch ua ps prev rest else None)"
| "rmatch ua (Single k # ps) prev [] = None"
| "rmatch ua (Single k # ps) prev (c # cs) =
     (if in_cls k c then rmatch ua ps (Some c) cs else None)"
| "rmatch ua (Many k # ps) prev [] = None"
| "rmatch ua (Many k # ps) prev (c # cs) =
     (if in_cls k c
      then (case rmatch ua (Many k # ps) (Some c) cs of
              Some r \<Rightarrow> Some r
            | None \<Rightarrow> rmatch ua ps (Some c) cs)
      else None)"

text \<open>The source's \<open>name_pattern\<close>, \<open>\b[A-Z][a-z]+\s[A-Z][a-z]+\b\<close>.\<close>

definition name_pattern :: "atom list" where
  "name_pattern =
     [Boundary, Single (Between 65 90), Many (Between 97 122), Single Space,
      Single (Between 65 90), Many (Between 97 122), Boundary]"

text \<open>
  \<open>re.sub\<close> with a function as replacement.  The search runs left to right over the
  original text: where the pattern matches, the callback is called on the matched text
  and its result is emitted, and the search resumes after the match; elsewhere the
  character is copied.  The callback is a state transformer.  (A pattern that matches
  the empty string does not occur here; at such a match the character is copied.)
\<close>

function re_sub_from ::
  "(codepoint \<Rightarrow> bool) \<Rightarrow> atom list \<Rightarrow> (pystr \<Rightarrow> 's \<Rightarrow> pystr \<times> 's) \<Rightarrow>
   codepoint option \<Rightarrow> pystr \<Rightarrow> 's \<Rightarrow> pystr \<times> 's" where
  "re_sub_from ua pat repl prev [] s = ([], s)"
| "re_sub_from ua pat repl prev (c # cs) s =
     (case rmatch ua pat prev (c # cs) of
        None \<Rightarrow>
          (case re_sub_from ua pat repl (Some c) cs s of (out, s') \<Rightarrow> (c # out, s'))
      | Some r \<Rightarrow>
          if length r \<le> length cs
          then (let m = take (length (c # cs) - length r) (c # cs) in
                case repl m s of (new, s') \<Rightarrow>
                  (case re_sub_from ua pat repl (Some (last m)) r s' of
                     (out, s'') \<Rightarrow> (new @ out, s'')))
          else (case re_sub_from ua pat repl (Some c) cs s of (out, s') \<Rightarrow> (c # out, s')))"
  by pat_completeness auto
termination
  by (relation "measure (\<lambda>(ua, pat, repl, prev, t, s). length t)") auto

definition re_sub ::
  "(codepoint \<Rightarrow> bool) \<Rightarrow> atom list \<Rightarrow> (pystr \<Rightarrow> 's \<Rightarrow> pystr \<times> 's) \<Rightarrow> pystr \<Rightarrow> 's \<Rightarrow> pystr \<times> 's" where
  "re_sub ua pat repl text s = re_sub_from ua pat repl None text s"

section \<open>External collaborators\<close>

text \<open>
  The program consumes three libraries as black boxes: the synthetic name generator
  (\<open>faker\<close>), the encoding detector (\<open>chardet\<close>) and Python's codecs.  Their behaviour is
  a parameter of the model.  \<open>'g\<close> is the generator's internal random state.  The model
  starts where both libraries have been imported (the module exits with status 1 when
  one is missing).
\<close>

type_synonym path = string
type_synonym bytes = "char list"

datatype faker_op = NameMale | NameFemale | Name

record 'g ext =
  uni_alnum :: "codepoint \<Rightarrow> bool"
  faker_supports :: "string \<Rightarrow> bool"
  faker_name :: "string \<Rightarrow> faker_op \<Rightarrow> 'g \<Rightarrow> pystr \<times> 'g"
  detect :: "bytes \<Rightarrow> string option"
  decode :: "string option \<Rightarrow> bytes \<Rightarrow> pystr option"
  encode_utf8 :: "pystr \<Rightarrow> bytes option"

section \<open>The world the program runs in\<close>

datatype fs_entry = Absent | Denied | File bytes

datatype error =
    FileNotFoundError path
  | OSError path
  | UnicodeDecodeError
  | UnicodeEncodeError
  | LocaleError string

datatype level = DEBUG | INFO | WARNING | ERROR | CRITICAL

datatype msg =
    BothGiven
  | NameListNotFound path
  | NameListReadError error
  | PlainError error
  | InitError error
  | InputNotFound path
  | InputReadError error
  | WriteError error
  | Written path
  | Unexpected error

text \<open>
  \<open>events\<close> is a ghost log of the calls made to the two sources of pseudonyms, each with
  the string it returned.  \<open>rnd\<close> is the process-wide random source: the sequence of its
  future raw draws.
\<close>

datatype event = RandomChoice pystr | FakerName string faker_op pystr

fun event_result :: "event \<Rightarrow> pystr" where
  "event_result (RandomChoice r) = r"
| "event_result (FakerName l k r) = r"

fun is_faker_event :: "event \<Rightarrow> bool" where
  "is_faker_event (RandomChoice r) = False"
| "is_faker_event (FakerName l k r) = True"

text \<open>\<open>io\<close> is a ghost trace of the attempts to open a file, in order.\<close>

datatype io_event = OpenRead path | OpenWrite path

text \<open>
  \<open>fs\<close> is what reading a path gives.  Whether a path can be opened for writing is a
  separate part of the state of the file system: \<open>unwritable w p\<close> is the error the
  attempt raises (\<open>FileNotFoundError\<close> when the directory of \<open>p\<close> does not exist,
  another \<open>OSError\<close> for a directory or a missing permission), \<open>None\<close> when the
  attempt succeeds.
\<close>

record 'g world =
  fs :: "path \<Rightarrow> fs_entry"
  unwritable :: "path \<Rightarrow> error option"
  rnd :: "nat \<Rightarrow> nat"
  fk :: 'g
  events :: "event list"
  io :: "io_event list"
  stdout :: "msg list"
  logs :: "(level \<times> msg) list"
  log_level :: level

section \<open>NamePseudonymizer\<close>

datatype faker = Faker string

record pseudonymizer =
  names :: "pystr list"
  gender :: "string option"
  locale_id :: string
  fake :: faker

text \<open>
  \<open>random.choice\<close> on the non-empty sequence \<open>x # xs\<close>: the element at a position
  below the length, drawn from the random source.  (On an empty sequence Python raises;
  the only call is guarded by \<open>if self.names\<close>.)
\<close>

definition random_choice :: "pystr \<Rightarrow> pystr list \<Rightarrow> 'g world \<Rightarrow> pystr \<times> 'g world" where
  "random_choice x xs w =
     (let r = (x # xs) ! (rnd w 0 mod length (x # xs)) in
      (r, w\<lparr>rnd := (\<lambda>k. rnd w (Suc k)), events := events w @ [RandomChoice r]\<rparr>))"

fun faker_call :: "'g ext \<Rightarrow> faker \<Rightarrow> faker_op \<Rightarrow> 'g world \<Rightarrow> pystr \<times> 'g world" where
  "faker_call ext (Faker l) k w =
     (case faker_name ext l k (fk w) of
        (r, g') \<Rightarrow> (r, w\<lparr>fk := g', events := events w @ [FakerName l k r]\<rparr>))"

definition generate_pseudonym :: "'g ext \<Rightarrow> pseudonymizer \<Rightarrow> 'g world \<Rightarrow> pystr \<times> 'g world" where
  "generate_pseudonym ext self w =
     (case names self of
        x # xs \<Rightarrow> random_choice x xs w
      | [] \<Rightarrow>
          if gender self = Some ''male'' then faker_call ext (fake self) NameMale w
          else if gender self = Some ''female'' then faker_call ext (fake self) NameFemale w
          else faker_call ext (fake self) Name w)"

definition replace_name :: "'g ext \<Rightarrow> pseudonymizer \<Rightarrow> pystr \<Rightarrow> 'g world \<Rightarrow> pystr \<times> 'g world" where
  "replace_name ext self m w = generate_pseudonym ext self w"

definition pseudonymize_text :: "'g ext \<Rightarrow> pseudonymizer \<Rightarrow> pystr \<Rightarrow> 'g world \<Rightarrow> pystr \<times> 'g world" where
  "pseudonymize_text ext self text w =
     re_sub (uni_alnum ext) name_pattern (replace_name ext self) text w"

section \<open>Files\<close>

text \<open>
  Opening a file for reading: the empty path and a path with no file raise
  \<open>FileNotFoundError\<close>; a file that exists but cannot be opened (permissions, a
  directory) raises another \<open>OSError\<close>.
\<close>

definition read_result :: "(path \<Rightarrow> fs_entry) \<Rightarrow> path \<Rightarrow> error + bytes" where
  "read_result f p =
     (if p = [] then Inl (FileNotFoundError p)
      else case f p of
             Absent \<Rightarrow> Inl (FileNotFoundError p)
           | Denied \<Rightarrow> Inl (OSError p)
           | File b \<Rightarrow> Inr b)"

definition open_read :: "path \<Rightarrow> 'g world \<Rightarrow> (error + bytes) \<times> 'g world" where
  "open_read p w = (read_result (fs w) p, w\<lparr>io := io w @ [OpenRead p]\<rparr>)"

text \<open>
  Text mode reads with universal newlines: \<open>\r\n\<close> and a lone \<open>\r\<close> arrive as
  \<open>\n\<close>.
\<close>

fun universal_newlines :: "pystr \<Rightarrow> pystr" where
  "universal_newlines [] = []"
| "universal_newlines [c] = (if c = 13 then [10] else [c])"
| "universal_newlines (c # d # ds) =
     (if c = 13 \<and> d = 10 then 10 # universal_newlines ds
      else if c = 13 then 10 # universal_newlines (d # ds)
      else c # universal_newlines (d # ds))"

text \<open>
  Iterating a text file yields its lines, each with its terminator \<open>\n\<close>; a last line
  without terminator is yielded as it is.
\<close>

fun file_lines :: "pystr \<Rightarrow> pystr list" where
  "file_lines [] = []"
| "file_lines (c # cs) =
     (if c = 10 then [c] # file_lines cs
      else case file_lines cs of
             [] \<Rightarrow> [[c]]
           | l # ls \<Rightarrow> (c # l) # ls)"

definition strip :: "pystr \<Rightarrow> pystr" where
  "strip s = rev (dropWhile is_space (rev (dropWhile is_space s)))"

text \<open>Python's logging: a record below the logger's level is dropped.\<close>

fun level_no :: "level \<Rightarrow> nat" where
  "level_no DEBUG = 10"
| "level_no INFO = 20"
| "level_no WARNING = 30"
| "level_no ERROR = 40"
| "level_no CRITICAL = 50"

definition log_msg :: "level \<Rightarrow> msg \<Rightarrow> 'g world \<Rightarrow> 'g world" where
  "log_msg lvl m w =
     (if level_no (log_level w) \<le> level_no lvl then w\<lparr>logs := logs w @ [(lvl, m)]\<rparr> else w)"

definition print :: "msg \<Rightarrow> 'g world \<Rightarrow> 'g world" where
  "print m w = w\<lparr>stdout := stdout w @ [m]\<rparr>"

text \<open>
  \<open>NamePseudonymizer.__init__\<close>.  The generator is constructed first and raises on a
  locale it does not support.  The name list is read only for a path that is neither
  \<open>None\<close> nor empty (\<open>if name_list_path:\<close>).  Both handlers log and re-raise.
\<close>

definition NamePseudonymizer_init ::
  "'g ext \<Rightarrow> path option \<Rightarrow> string option \<Rightarrow> string \<Rightarrow> 'g world \<Rightarrow>
   (error + pseudonymizer) \<times> 'g world" where
  "NamePseudonymizer_init ext name_list_path gender_v locale_v w =
     (if \<not> faker_supports ext locale_v then (Inl (LocaleError locale_v), w)
      else
        let self = \<lparr>names = [], gender = gender_v, locale_id = locale_v, fake = Faker locale_v\<rparr> in
        case name_list_path of
          None \<Rightarrow> (Inr self, w)
        | Some p \<Rightarrow>
            if p = [] then (Inr self, w)
            else
              (case open_read p w of
                 (Inl (FileNotFoundError q), w1) \<Rightarrow>
                   (Inl (FileNotFoundError q), log_msg ERROR (NameListNotFound p) w1)
               | (Inl e, w1) \<Rightarrow> (Inl e, log_msg ERROR (NameListReadError e) w1)
               | (Inr b, w1) \<Rightarrow>
                   (case decode ext (Some ''utf-8'') b of
                      None \<Rightarrow>
                        (Inl UnicodeDecodeError,
                         log_msg ERROR (NameListReadError UnicodeDecodeError) w1)
                    | Some t \<Rightarrow>
                        (Inr (self\<lparr>names := map strip (file_lines (universal_newlines t))\<rparr>),
                         w1))))"

section \<open>The command line\<close>

record args =
  input_file :: path
  output_file :: path
  name_list :: "path option"
  gender_arg :: "string option"
  locale_arg :: string
  log_level_arg :: level

text \<open>Truthiness of an optional string: \<open>None\<close> and the empty string are false.\<close>

fun truthy :: "string option \<Rightarrow> bool" where
  "truthy None = False"
| "truthy (Some s) = (s \<noteq> [])"

text \<open>
  Opening the output for writing raises on the empty path and on a path the file system
  does not let open for writing, and the file system is left as it was.  Otherwise it
  creates or truncates the file; the text is then encoded and written, with no
  translation of line ends (as on POSIX).  A text the codec cannot encode raises after
  the file has been truncated.
\<close>

definition write_output :: "'g ext \<Rightarrow> path \<Rightarrow> pystr \<Rightarrow> 'g world \<Rightarrow> error option \<times> 'g world" where
  "write_output ext p text w =
     (let w1 = w\<lparr>io := io w @ [OpenWrite p]\<rparr> in
      if p = [] then (Some (FileNotFoundError p), w1)
      else case unwritable w p of
             Some e \<Rightarrow> (Some e, w1)
           | None \<Rightarrow>
               (case encode_utf8 ext text of
                  None \<Rightarrow> (Some UnicodeEncodeError, w1\<lparr>fs := (fs w)(p := File [])\<rparr>)
                | Some b \<Rightarrow> (None, w1\<lparr>fs := (fs w)(p := File b)\<rparr>)))"

text \<open>
  \<open>main\<close>, after argument parsing, in three blocks; the result is the exit status and
  the final world.  \<open>startup\<close> sets the logging level and warns when both a name list
  and a gender are given (truthiness of the two options).
\<close>

definition startup :: "args \<Rightarrow> 'g world \<Rightarrow> 'g world" where
  "startup a w0 =
     (let w1 = w0\<lparr>log_level := log_level_arg a\<rparr> in
      if truthy (name_list a) \<and> truthy (gender_arg a)
      then log_msg WARNING BothGiven w1 else w1)"

text \<open>
  \<open>process\<close> is the part of \<open>main\<close> after the construction: detect, read, pseudonymize,
  write.  The first \<open>open\<close> of the input (for encoding detection) stands outside the
  inner \<open>try\<close>, so its errors reach the outer handler of \<open>main\<close>; the second one
  stands inside.
\<close>

definition process :: "'g ext \<Rightarrow> args \<Rightarrow> pseudonymizer \<Rightarrow> 'g world \<Rightarrow> nat \<times> 'g world" where
  "process ext a pseudonymizer w3 =
     (case open_read (input_file a) w3 of
        (Inl e, w4) \<Rightarrow> (1, print (Unexpected e) (log_msg CRITICAL (Unexpected e) w4))
      | (Inr raw_data, w4) \<Rightarrow>
          (let encoding = detect ext raw_data in
           case open_read (input_file a) w4 of
             (Inl (FileNotFoundError q), w5) \<Rightarrow>
               (1, print (InputNotFound (input_file a))
                     (log_msg ERROR (InputNotFound (input_file a)) w5))
           | (Inl e, w5) \<Rightarrow>
               (1, print (InputReadError e) (log_msg ERROR (InputReadError e) w5))
           | (Inr b, w5) \<Rightarrow>
               (case decode ext encoding b of
                  None \<Rightarrow>
                    (1, print (InputReadError UnicodeDecodeError)
                          (log_msg ERROR (InputReadError UnicodeDecodeError) w5))
                | Some t \<Rightarrow>
                    (case pseudonymize_text ext pseudonymizer (universal_newlines t) w5 of
                       (pseudonymized_text, w6) \<Rightarrow>
                         (case write_output ext (output_file a) pseudonymized_text w6 of
                            (Some e, w7) \<Rightarrow>
                              (1, print (WriteError e) (log_msg ERROR (WriteError e) w7))
                          | (None, w7) \<Rightarrow>
                              (0, print (Written (output_file a))
                                    (log_msg INFO (Written (output_file a)) w7)))))))"

definition main :: "'g ext \<Rightarrow> args \<Rightarrow> 'g world \<Rightarrow> nat \<times> 'g world" where
  "main ext a w0 =
     (case NamePseudonymizer_init ext (name_list a) (gender_arg a) (locale_arg a) (startup a w0) of
        (Inl (FileNotFoundError q), w3) \<Rightarrow> (1, print (PlainError (FileNotFoundError q)) w3)
      | (Inl e, w3) \<Rightarrow> (1, print (InitError e) w3)
      | (Inr pseudonymizer, w3) \<Rightarrow> process ext a pseudonymizer w3)"

section \<open>Notions the properties are stated with\<close>

text \<open>
  The decomposition the search loop of \<open>re.sub\<close> and \<open>re.finditer\<close> makes of a text:
  the matches, left to right, and the characters between them.
\<close>

datatype piece = Lit codepoint | Hit pystr

fun piece_text :: "piece \<Rightarrow> pystr" where
  "piece_text (Lit c) = [c]"
| "piece_text (Hit m) = m"

fun is_hit :: "piece \<Rightarrow> bool" where
  "is_hit (Lit c) = False"
| "is_hit (Hit m) = True"

function scan :: "(codepoint \<Rightarrow> bool) \<Rightarrow> atom list \<Rightarrow> codepoint option \<Rightarrow> pystr \<Rightarrow> piece list" where
  "scan ua pat prev [] = []"
| "scan ua pat prev (c # cs) =
     (case rmatch ua pat prev (c # cs) of
        None \<Rightarrow> Lit c # scan ua pat (Some c) cs
      | Some r \<Rightarrow>
          if length r \<le> length cs
          then (let m = take (length (c # cs) - length r) (c # cs) in
                Hit m # scan ua pat (Some (last m)) r)
          else Lit c # scan ua pat (Some c) cs)"
  by pat_completeness auto
termination
  by (relation "measure (\<lambda>(ua, pat, prev, t). length t)") auto

text \<open>\<open>re.finditer\<close>: the matched texts, in order.\<close>

definition finditer :: "(codepoint \<Rightarrow> bool) \<Rightarrow> atom list \<Rightarrow> pystr \<Rightarrow> pystr list" where
  "finditer ua pat text = map piece_text (filter is_hit (scan ua pat None text))"

text \<open>
  \<open>fill ps rs\<close> rebuilds a text from a decomposition, with the matches replaced in
  order by the strings \<open>rs\<close> and every other character kept where it is.
\<close>

fun fill :: "piece list \<Rightarrow> pystr list \<Rightarrow> pystr" where
  "fill [] rs = []"
| "fill (Lit c # ps) rs = c # fill ps rs"
| "fill (Hit m # ps) [] = m @ fill ps []"
| "fill (Hit m # ps) (r # rs) = r @ fill ps rs"

text \<open>Applying a replacement callback to the matches of a decomposition, in order.\<close>

fun substitute :: "(pystr \<Rightarrow> 's \<Rightarrow> pystr \<times> 's) \<Rightarrow> piece list \<Rightarrow> 's \<Rightarrow> pystr \<times> 's" where
  "substitute repl [] s = ([], s)"
| "substitute repl (Lit c # ps) s =
     (case substitute repl ps s of (out, s') \<Rightarrow> (c # out, s'))"
| "substitute repl (Hit m # ps) s =
     (case repl m s of (new, s') \<Rightarrow>
        (case substitute repl ps s' of (out, s'') \<Rightarrow> (new @ out, s'')))"

text \<open>
  A name-shaped span in words: a capitalized word (an uppercase letter \<open>A-Z\<close> followed
  by one or more lowercase letters \<open>a-z\<close>), one separator character, a capitalized word.
  \<open>sep\<close> tells which characters separate.  A span matches in a text when a word
  boundary stands on both of its sides: since it begins and ends with a letter, when the
  character before it and the character after it, if any, are not word characters.
\<close>

definition upper :: "codepoint \<Rightarrow> bool" where
  "upper c \<longleftrightarrow> 65 \<le> c \<and> c \<le> 90"

definition lower :: "codepoint \<Rightarrow> bool" where
  "lower c \<longleftrightarrow> 97 \<le> c \<and> c \<le> 122"

definition cap_word :: "pystr \<Rightarrow> bool" where
  "cap_word u \<longleftrightarrow> (\<exists>c cs. u = c # cs \<and> upper c \<and> cs \<noteq> [] \<and> list_all lower cs)"

definition name_shaped :: "(codepoint \<Rightarrow> bool) \<Rightarrow> pystr \<Rightarrow> bool" where
  "name_shaped sep m \<longleftrightarrow> (\<exists>u s v. m = u @ s # v \<and> cap_word u \<and> sep s \<and> cap_word v)"

definition name_match ::
  "(codepoint \<Rightarrow> bool) \<Rightarrow> (codepoint \<Rightarrow> bool) \<Rightarrow> codepoint option \<Rightarrow> pystr \<Rightarrow> pystr \<Rightarrow> bool" where
  "name_match ua sep prev m r \<longleftrightarrow>
     name_shaped sep m \<and>
     (case prev of None \<Rightarrow> True | Some p \<Rightarrow> \<not> is_word ua p) \<and>
     (case r of [] \<Rightarrow> True | c # _ \<Rightarrow> \<not> is_word ua c)"

definition has_name_span :: "(codepoint \<Rightarrow> bool) \<Rightarrow> (codepoint \<Rightarrow> bool) \<Rightarrow> pystr \<Rightarrow> bool" where
  "has_name_span ua sep text \<longleftrightarrow>
     (\<exists>pre m r. text = pre @ m @ r \<and>
        name_match ua sep (if pre = [] then None else Some (last pre)) m r)"

text \<open>The separator read literally, the space character, and as the pattern has it.\<close>

definition is_blank :: "codepoint \<Rightarrow> bool" where
  "is_blank c \<longleftrightarrow> c = 32"

text \<open>
  The matches of the name pattern in a text, taken left to right without overlap: at
  each position either no span starting there matches and the search moves on by one
  character, or the span that matches is taken and the search resumes after it.
\<close>

inductive ltr_matches :: "(codepoint \<Rightarrow> bool) \<Rightarrow> codepoint option \<Rightarrow> pystr \<Rightarrow> pystr list \<Rightarrow> bool"
  for ua :: "codepoint \<Rightarrow> bool" where
  ltr_end: "ltr_matches ua prev [] []"
| ltr_skip:
    "\<not> (\<exists>m r. c # cs = m @ r \<and> name_match ua is_space prev m r) \<Longrightarrow>
     ltr_matches ua (Some c) cs ms \<Longrightarrow> ltr_matches ua prev (c # cs) ms"
| ltr_take:
    "name_match ua is_space prev m r \<Longrightarrow>
     ltr_matches ua (Some (last m)) r ms \<Longrightarrow> ltr_matches ua prev (m @ r) (m # ms)"

text \<open>
  The events a run has added to the log, and the strings they returned.
\<close>

definition new_events :: "'g world \<Rightarrow> 'g world \<Rightarrow> event list" where
  "new_events w w' = drop (length (events w)) (events w')"

text \<open>What a run has added to the trace of opened files and to the standard output.\<close>

definition new_io :: "'g world \<Rightarrow> 'g world \<Rightarrow> io_event list" where
  "new_io w w' = drop (length (io w)) (io w')"

definition new_stdout :: "'g world \<Rightarrow> 'g world \<Rightarrow> msg list" where
  "new_stdout w w' = drop (length (stdout w)) (stdout w')"


text \<open>The generator operation a gender setting selects.\<close>

definition gender_op :: "string option \<Rightarrow> faker_op" where
  "gender_op g =
     (if g = Some ''male'' then NameMale else if g = Some ''female'' then NameFemale else Name)"

section \<open>Test doubles\<close>

text \<open>
  A concrete set of collaborators and a concrete world, on which the theorems below are
  instantiated: no alphanumerics above ASCII, a generator that knows the locale
  \<open>en_US\<close> and returns fixed names, a detector that always answers \<open>utf-8\<close>, and
  codecs that map bytes to the code points of the same number.  The file system holds
  three files and has no directory \<open>nodir\<close>.
\<close>

definition demo_ext :: "nat ext" where
  "demo_ext =
     \<lparr>uni_alnum = (\<lambda>c. False),
      faker_supports = (\<lambda>l. l = ''en_US''),
      faker_name = (\<lambda>l k g.
         (case k of NameMale \<Rightarrow> py ''John Doe'' | NameFemale \<Rightarrow> py ''Jane Doe''
          | Name \<Rightarrow> py ''Alex Doe'', Suc g)),
      detect = (\<lambda>b. Some ''utf-8''),
      decode = (\<lambda>e b. Some (map of_char b)),
      encode_utf8 = (\<lambda>t. Some (map char_of t))\<rparr>"

definition demo_fs :: "path \<Rightarrow> fs_entry" where
  "demo_fs p =
     (if p = ''in.txt'' then File ''Alice Smith met Bob.''
      else if p = ''names.txt'' then File ''Jordan Lee\<newline>\<newline>  Kim Roe \<newline>Jordan Lee''
      else if p = ''empty.txt'' then File []
      else Absent)"

definition demo_unwritable :: "path \<Rightarrow> error option" where
  "demo_unwritable p = (if p = ''nodir/out.txt'' then Some (FileNotFoundError p) else None)"

definition demo_world :: "nat world" where
  "demo_world =
     \<lparr>fs = demo_fs, unwritable = demo_unwritable, rnd = (\<lambda>k. k), fk = 0, events = [],
      io = [], stdout = [], logs = [], log_level = INFO\<rparr>"

definition demo_self :: pseudonymizer where
  "demo_self =
     \<lparr>names = [py ''Jordan Lee''], gender = None, locale_id = ''en_US'',
      fake = Faker ''en_US''\<rparr>"

definition demo_args :: args where
  "demo_args =
     \<lparr>input_file = ''in.txt'', output_file = ''out.txt'', name_list = None,
      gender_arg = None, locale_arg = ''en_US'', log_level_arg = INFO\<rparr>"

section \<open>The matcher on the name pattern\<close>

lemma many_run:
  assumes cont: "\<And>p c cs. in_cls k p \<Longrightarrow> in_cls k c \<Longrightarrow> rmatch ua ps (Some p) (c # cs) = None"
  shows "rmatch ua (Many k # ps) prev t =
     (case takeWhile (in_cls k) t of
        [] \<Rightarrow> None
      | x # xs \<Rightarrow> rmatch ua ps (Some (last (x # xs))) (dropWhile (in_cls k) t))"
proof (induction t arbitrary: prev)
  case Nil
  show ?case by simp
next
  case (Cons c cs)
  show ?case
  proof (cases "in_cls k c")
    case False
    then show ?thesis by simp
  next
    case True
    note inc = this
    show ?thesis
    proof (cases "takeWhile (in_cls k) cs")
      case Nil
      then have "dropWhile (in_cls k) cs = cs"
        by (metis append_Nil takeWhile_dropWhile_id)
      with Nil inc Cons.IH [of "Some c"] show ?thesis by simp
    next
      case (Cons x xs)
      then obtain rest where cs: "cs = x # rest" and inx: "in_cls k x"
        by (cases cs) (auto split: if_splits)
      have ih: "rmatch ua (Many k # ps) (Some c) cs =
          rmatch ua ps (Some (last (x # xs))) (dropWhile (in_cls k) cs)"
        using Cons.IH [of "Some c"] Cons by simp
      have fail: "rmatch ua ps (Some c) cs = None"
        using cont [OF inc inx] cs by simp
      show ?thesis using inc Cons ih fail
        by (simp split: option.splits)
    qed
  qed
qed

lemma in_cls_lower: "in_cls (Between 97 122) = lower"
  by (rule ext) (simp add: lower_def)

lemma in_cls_upper: "in_cls (Between 65 90) = upper"
  by (rule ext) (simp add: upper_def)

lemma lower_is_word: "lower c \<Longrightarrow> is_word ua c"
  by (simp add: lower_def is_word_def)

lemma upper_is_word: "upper c \<Longrightarrow> is_word ua c"
  by (simp add: upper_def is_word_def)

lemma space_not_lower: "is_space c \<Longrightarrow> \<not> lower c"
  by (auto simp: lower_def is_space_def)

lemma boundary_after_word:
  "is_word ua p \<Longrightarrow>
   at_boundary ua (Some p) r = (case r of [] \<Rightarrow> True | c # _ \<Rightarrow> \<not> is_word ua c)"
  by (cases r) (auto simp: at_boundary_def)

lemma boundary_before_word:
  "is_word ua c \<Longrightarrow>
   at_boundary ua prev (c # cs) = (case prev of None \<Rightarrow> True | Some p \<Rightarrow> \<not> is_word ua p)"
  by (cases prev) (auto simp: at_boundary_def)

lemma lower_run_then_space:
  "rmatch ua (Many (Between 97 122) # Single Space # ps) prev t =
     (case takeWhile lower t of
        [] \<Rightarrow> None
      | x # xs \<Rightarrow> rmatch ua (Single Space # ps) (Some (last (x # xs))) (dropWhile lower t))"
proof -
  have "rmatch ua (Single Space # ps) (Some p) (c # cs) = None"
    if "in_cls (Between 97 122) c" for p c cs
    using that space_not_lower [of c] by (auto simp: lower_def)
  from many_run [of "Between 97 122" ua "Single Space # ps" prev t, OF this]
  show ?thesis unfolding in_cls_lower .
qed

lemma lower_run_then_boundary:
  "rmatch ua [Many (Between 97 122), Boundary] prev t =
     (case takeWhile lower t of
        [] \<Rightarrow> None
      | x # xs \<Rightarrow>
          if at_boundary ua (Some (last (x # xs))) (dropWhile lower t)
          then Some (dropWhile lower t) else None)"
proof -
  have "rmatch ua [Boundary] (Some p) (c # cs) = None"
    if "in_cls (Between 97 122) p" "in_cls (Between 97 122) c" for p c cs
    using that by (simp add: is_word_def at_boundary_def)
  from many_run [of "Between 97 122" ua "[Boundary]" prev t, OF this]
  have "rmatch ua [Many (Between 97 122), Boundary] prev t =
     (case takeWhile lower t of
        [] \<Rightarrow> None
      | x # xs \<Rightarrow> rmatch ua [Boundary] (Some (last (x # xs))) (dropWhile lower t))"
    unfolding in_cls_lower .
  then show ?thesis by (simp split: list.splits)
qed

lemma run_split:
  assumes "list_all P run" "rest = [] \<or> \<not> P (hd rest)"
  shows "takeWhile P (run @ rest) = run" "dropWhile P (run @ rest) = rest"
proof -
  have all: "\<forall>x\<in>set run. P x" using assms(1) by (simp add: list_all_iff)
  have tw: "takeWhile P rest = []" and dw: "dropWhile P rest = rest"
    using assms(2) by (cases rest; simp)+
  show "takeWhile P (run @ rest) = run" using all tw by simp
  show "dropWhile P (run @ rest) = rest" using all dw by simp
qed

lemma run_unsplit:
  assumes "takeWhile P t = x # xs"
  shows "t = (x # xs) @ dropWhile P t" "list_all P (x # xs)"
    "dropWhile P t = [] \<or> \<not> P (hd (dropWhile P t))"
proof -
  show "t = (x # xs) @ dropWhile P t"
    using assms takeWhile_dropWhile_id [of P t] by simp
  show "list_all P (x # xs)"
    using assms set_takeWhileD [of _ P t] by (auto simp: list_all_iff)
  show "dropWhile P t = [] \<or> \<not> P (hd (dropWhile P t))"
    using hd_dropWhile [of P t] by blast
qed

lemma single_Some:
  "rmatch ua (Single k # ps) prev t = Some r \<longleftrightarrow>
   (\<exists>c cs. t = c # cs \<and> in_cls k c \<and> rmatch ua ps (Some c) cs = Some r)"
  by (cases t) auto

lemma lower_space_Some:
  "rmatch ua (Many (Between 97 122) # Single Space # ps) prev t = Some r \<longleftrightarrow>
   (\<exists>run s rest. t = run @ s # rest \<and> run \<noteq> [] \<and> list_all lower run \<and> is_space s \<and>
      rmatch ua ps (Some s) rest = Some r)"
  (is "?L \<longleftrightarrow> ?R")
proof
  assume ?L
  then obtain x xs where tw: "takeWhile lower t = x # xs"
    and m: "rmatch ua (Single Space # ps) (Some (last (x # xs))) (dropWhile lower t) = Some r"
    by (auto simp: lower_run_then_space split: list.splits)
  from m obtain s rest where dw: "dropWhile lower t = s # rest" and sp: "is_space s"
    and m': "rmatch ua ps (Some s) rest = Some r"
    by (auto simp: single_Some)
  from run_unsplit(1,2) [OF tw] dw have "t = (x # xs) @ s # rest" "list_all lower (x # xs)"
    by simp_all
  with sp m' show ?R by blast
next
  assume ?R
  then obtain run s rest where t: "t = run @ s # rest" and ne: "run \<noteq> []"
    and lo: "list_all lower run" and sp: "is_space s"
    and m: "rmatch ua ps (Some s) rest = Some r"
    by blast
  have "s # rest = [] \<or> \<not> lower (hd (s # rest))" using sp space_not_lower by simp
  from run_split [OF lo this] have tw: "takeWhile lower t = run" and dw: "dropWhile lower t = s # rest"
    using t by simp_all
  obtain x xs where run: "run = x # xs" using ne by (cases run) auto
  show ?L using tw dw run sp m
    by (simp add: lower_run_then_space)
qed

lemma lower_boundary_Some:
  "rmatch ua [Many (Between 97 122), Boundary] prev t = Some r \<longleftrightarrow>
   (\<exists>run. t = run @ r \<and> run \<noteq> [] \<and> list_all lower run \<and>
      (case r of [] \<Rightarrow> True | c # _ \<Rightarrow> \<not> is_word ua c))"
  (is "?L \<longleftrightarrow> ?R")
proof
  assume ?L
  then obtain x xs where tw: "takeWhile lower t = x # xs"
    and b: "at_boundary ua (Some (last (x # xs))) (dropWhile lower t)"
    and r: "r = dropWhile lower t"
    by (auto simp: lower_run_then_boundary split: list.splits if_splits)
  note u = run_unsplit(1,2) [OF tw]
  have "lower (last (x # xs))"
    using u(2) last_in_set [of "x # xs"] unfolding list_all_iff by blast
  then have "is_word ua (last (x # xs))" by (rule lower_is_word)
  from boundary_after_word [OF this] b r
  have "case r of [] \<Rightarrow> True | c # _ \<Rightarrow> \<not> is_word ua c" by blast
  with u r show ?R by blast
next
  assume ?R
  then obtain run where t: "t = run @ r" and ne: "run \<noteq> []" and lo: "list_all lower run"
    and e: "case r of [] \<Rightarrow> True | c # _ \<Rightarrow> \<not> is_word ua c"
    by blast
  have "r = [] \<or> \<not> lower (hd r)"
    using e lower_is_word [of "hd r" ua] by (cases r) auto
  from run_split [OF lo this] have tw: "takeWhile lower t = run" and dw: "dropWhile lower t = r"
    using t by simp_all
  obtain x xs where run: "run = x # xs" using ne by (cases run) auto
  have "lower (last run)"
    using lo last_in_set [OF ne] unfolding list_all_iff by blast
  then have "is_word ua (last run)" by (rule lower_is_word)
  from boundary_after_word [OF this] e have "at_boundary ua (Some (last run)) r" by blast
  then show ?L unfolding lower_run_then_boundary tw dw run by simp
qed

lemma rmatch_name_pattern:
  "rmatch ua name_pattern prev t = Some r \<longleftrightarrow>
   (\<exists>m. t = m @ r \<and> name_match ua is_space prev m r)"
  (is "?L \<longleftrightarrow> ?R")
proof
  assume ?L
  then have b: "at_boundary ua prev t"
    and m1: "rmatch ua [Single (Between 65 90), Many (Between 97 122), Single Space,
        Single (Between 65 90), Many (Between 97 122), Boundary] prev t = Some r"
    by (auto simp: name_pattern_def split: if_splits)
  from m1 obtain c run1 s d run2 where t: "t = c # run1 @ s # d # run2 @ r"
    and c: "upper c" and r1: "run1 \<noteq> []" "list_all lower run1" and s: "is_space s"
    and d: "upper d" and r2: "run2 \<noteq> []" "list_all lower run2"
    and e: "case r of [] \<Rightarrow> True | c # _ \<Rightarrow> \<not> is_word ua c"
    unfolding single_Some lower_space_Some lower_boundary_Some in_cls_upper
    by auto
  have "is_word ua c" using c by (rule upper_is_word)
  from boundary_before_word [OF this] b t
  have p: "case prev of None \<Rightarrow> True | Some p \<Rightarrow> \<not> is_word ua p" by blast
  have "cap_word (c # run1)" "cap_word (d # run2)"
    using c d r1 r2 by (auto simp: cap_word_def)
  then have "name_shaped is_space ((c # run1) @ s # (d # run2))"
    using s unfolding name_shaped_def by blast
  with p e have "name_match ua is_space prev ((c # run1) @ s # (d # run2)) r"
    by (simp add: name_match_def)
  moreover have "t = ((c # run1) @ s # (d # run2)) @ r" using t by simp
  ultimately show ?R by blast
next
  assume ?R
  then obtain m where t: "t = m @ r" and nm: "name_match ua is_space prev m r" by blast
  from nm obtain c run1 s d run2 where m: "m = (c # run1) @ s # (d # run2)"
    and c: "upper c" and r1: "run1 \<noteq> []" "list_all lower run1" and s: "is_space s"
    and d: "upper d" and r2: "run2 \<noteq> []" "list_all lower run2"
    and p: "case prev of None \<Rightarrow> True | Some p \<Rightarrow> \<not> is_word ua p"
    and e: "case r of [] \<Rightarrow> True | c # _ \<Rightarrow> \<not> is_word ua c"
    by (auto simp: name_match_def name_shaped_def cap_word_def)
  have t': "t = c # run1 @ s # d # run2 @ r" using t m by simp
  have "is_word ua c" using c by (rule upper_is_word)
  from boundary_before_word [OF this] p t'
  have b: "at_boundary ua prev t" by blast
  have 1: "rmatch ua [Many (Between 97 122), Boundary] (Some d) (run2 @ r) = Some r"
    unfolding lower_boundary_Some using r2 e by blast
  have 2: "rmatch ua [Single (Between 65 90), Many (Between 97 122), Boundary] (Some s)
      (d # run2 @ r) = Some r"
    using 1 d by (simp add: upper_def)
  have 3: "rmatch ua [Many (Between 97 122), Single Space, Single (Between 65 90),
      Many (Between 97 122), Boundary] (Some c) (run1 @ s # d # run2 @ r) = Some r"
    unfolding lower_space_Some using r1 s 2 by blast
  have "rmatch ua [Single (Between 65 90), Many (Between 97 122), Single Space,
        Single (Between 65 90), Many (Between 97 122), Boundary] prev t = Some r"
    unfolding t' using 3 c by (simp add: upper_def)
  with b show ?L
    by (simp add: name_pattern_def)
qed

section \<open>The search loop\<close>

lemma rmatch_suffix: "rmatch ua ps prev t = Some r \<Longrightarrow> \<exists>m. t = m @ r"
proof (induction ua ps prev t arbitrary: r rule: rmatch.induct)
  case (1 ua prev rest)
  then show ?case by simp
next
  case (2 ua ps prev rest)
  then show ?case by (simp split: if_splits)
next
  case (3 ua k ps prev)
  then show ?case by simp
next
  case (4 ua k ps prev c cs)
  then obtain m where "cs = m @ r" by (auto split: if_splits)
  then have "c # cs = (c # m) @ r" by simp
  then show ?case by blast
next
  case (5 ua k ps prev)
  then show ?case by simp
next
  case (6 ua k ps prev c cs)
  then obtain m where "cs = m @ r" by (auto split: if_splits option.splits)
  then have "c # cs = (c # m) @ r" by simp
  then show ?case by blast
qed

lemma name_shaped_nonempty: "name_shaped sep m \<Longrightarrow> m \<noteq> []"
  by (auto simp: name_shaped_def)

lemma name_match_unique:
  assumes "rmatch ua name_pattern prev t = Some r" "t = m @ r"
  shows "m = take (length t - length r) t" "name_match ua is_space prev m r" "m \<noteq> []"
    "length r < length t"
proof -
  from assms(1) obtain m' where m': "t = m' @ r" "name_match ua is_space prev m' r"
    unfolding rmatch_name_pattern by blast
  with assms(2) have eq: "m' = m" by simp
  show "m = take (length t - length r) t" using assms(2) by simp
  show nm: "name_match ua is_space prev m r" using m' eq by simp
  then show "m \<noteq> []" by (auto simp: name_match_def dest: name_shaped_nonempty)
  then show "length r < length t" using assms(2) by simp
qed

lemma re_sub_from_substitute:
  "re_sub_from ua pat repl prev t s = substitute repl (scan ua pat prev t) s"
proof (induction ua pat repl prev t s rule: re_sub_from.induct)
  case (1 ua pat repl prev s)
  show ?case by simp
next
  case (2 ua pat repl prev c cs s)
  show ?case
  proof (cases "rmatch ua pat prev (c # cs)")
    case None
    with 2(1) show ?thesis by simp
  next
    case (Some r)
    show ?thesis
    proof (cases "length r \<le> length cs")
      case True
      define m where "m = take (length (c # cs) - length r) (c # cs)"
      obtain new s' where rp: "repl m s = (new, s')" by (cases "repl m s")
      have ih: "re_sub_from ua pat repl (Some (last m)) r s' =
          substitute repl (scan ua pat (Some (last m)) r) s'"
        using 2(2) [OF Some True m_def rp [symmetric]] by simp
      show ?thesis
        by (simp only: re_sub_from.simps scan.simps Some option.case True if_True Let_def
              m_def [symmetric] rp ih substitute.simps prod.case)
    next
      case False
      with Some 2(3) show ?thesis by simp
    qed
  qed
qed

lemma scan_concat:
  "concat (map piece_text (scan ua pat prev t)) = t"
proof (induction ua pat prev t rule: scan.induct)
  case (1 ua pat prev)
  show ?case by simp
next
  case (2 ua pat prev c cs)
  show ?case
  proof (cases "rmatch ua pat prev (c # cs)")
    case None
    with 2(1) show ?thesis by simp
  next
    case (Some r)
    show ?thesis
    proof (cases "length r \<le> length cs")
      case True
      define m where "m = take (length (c # cs) - length r) (c # cs)"
      from rmatch_suffix [OF Some] obtain m' where m': "c # cs = m' @ r" by blast
      then have "m = m'" unfolding m_def by simp
      with m' have split: "m @ r = c # cs" by simp
      have ih: "concat (map piece_text (scan ua pat (Some (last m)) r)) = r"
        using 2(2) [OF Some True m_def] .
      have "scan ua pat prev (c # cs) = Hit m # scan ua pat (Some (last m)) r"
        by (simp only: scan.simps Some option.case True if_True Let_def m_def [symmetric])
      then show ?thesis using ih split by simp
    next
      case False
      with Some 2(3) show ?thesis by simp
    qed
  qed
qed

lemma scan_name_Some:
  assumes "rmatch ua name_pattern prev (c # cs) = Some r"
  shows "\<exists>m. c # cs = m @ r \<and> name_match ua is_space prev m r \<and>
     scan ua name_pattern prev (c # cs) = Hit m # scan ua name_pattern (Some (last m)) r"
proof -
  define m where "m = take (length (c # cs) - length r) (c # cs)"
  from rmatch_suffix [OF assms] obtain m' where m': "c # cs = m' @ r" by blast
  note u = name_match_unique [OF assms m']
  have eq: "m' = m" using u(1) m_def by simp
  have le: "length r \<le> length cs" using u(4) by simp
  have "scan ua name_pattern prev (c # cs) = Hit m # scan ua name_pattern (Some (last m)) r"
    by (simp only: scan.simps assms option.case le if_True Let_def m_def [symmetric])
  with m' u(2) eq show ?thesis by blast
qed

lemma scan_name_None:
  assumes "rmatch ua name_pattern prev (c # cs) = None"
  shows "scan ua name_pattern prev (c # cs) = Lit c # scan ua name_pattern (Some c) cs"
  using assms by simp

lemma scan_hits_match:
  "Hit m \<in> set (scan ua name_pattern prev t) \<Longrightarrow> name_shaped is_space m"
proof (induction ua pat\<equiv>name_pattern prev t rule: scan.induct)
  case (1 ua prev)
  then show ?case by simp
next
  case (2 ua prev c cs)
  show ?case
  proof (cases "rmatch ua name_pattern prev (c # cs)")
    case None
    with 2 show ?thesis by simp
  next
    case (Some r)
    from scan_name_Some [OF Some] obtain m' where m': "c # cs = m' @ r"
      "name_match ua is_space prev m' r"
      "scan ua name_pattern prev (c # cs) = Hit m' # scan ua name_pattern (Some (last m')) r"
      by blast
    have le: "length r \<le> length cs" using name_match_unique(4) [OF Some m'(1)] by simp
    have m'_eq: "m' = take (length (c # cs) - length r) (c # cs)"
      using m'(1) by simp
    from 2(4) m'(3) consider "m = m'" | "Hit m \<in> set (scan ua name_pattern (Some (last m')) r)"
      by auto
    then show ?thesis
    proof cases
      case 1
      with m'(2) show ?thesis by (simp add: name_match_def)
    next
      case 2
      then show ?thesis
        using "2.hyps"(2) [OF Some le m'_eq] by simp
    qed
  qed
qed

lemma scan_ltr_matches:
  "ltr_matches ua prev t (map piece_text (filter is_hit (scan ua name_pattern prev t)))"
proof (induction ua pat\<equiv>name_pattern prev t rule: scan.induct)
  case (1 ua prev)
  show ?case by (simp add: ltr_end)
next
  case (2 ua prev c cs)
  show ?case
  proof (cases "rmatch ua name_pattern prev (c # cs)")
    case None
    then have no: "\<not> (\<exists>m r. c # cs = m @ r \<and> name_match ua is_space prev m r)"
      using rmatch_name_pattern [of ua prev "c # cs"] by auto
    have "ltr_matches ua (Some c) cs
        (map piece_text (filter is_hit (scan ua name_pattern (Some c) cs)))"
      using 2(1) [OF None] .
    from ltr_skip [OF no this] show ?thesis using None by simp
  next
    case (Some r)
    from scan_name_Some [OF Some] obtain m where m: "c # cs = m @ r"
      "name_match ua is_space prev m r"
      "scan ua name_pattern prev (c # cs) = Hit m # scan ua name_pattern (Some (last m)) r"
      by blast
    have le: "length r \<le> length cs" using name_match_unique(4) [OF Some m(1)] by simp
    have m_eq: "m = take (length (c # cs) - length r) (c # cs)"
      using m(1) by simp
    have "ltr_matches ua (Some (last m)) r
        (map piece_text (filter is_hit (scan ua name_pattern (Some (last m)) r)))"
      using 2(2) [OF Some le m_eq] .
    from ltr_take [OF m(2) this]
    have "ltr_matches ua prev (c # cs)
        (m # map piece_text (filter is_hit (scan ua name_pattern (Some (last m)) r)))"
      unfolding m(1) [symmetric] .
    moreover have "map piece_text (filter is_hit (scan ua name_pattern prev (c # cs))) =
        m # map piece_text (filter is_hit (scan ua name_pattern (Some (last m)) r))"
      unfolding m(3) by simp
    ultimately show ?thesis by simp
  qed
qed

lemma name_match_functional:
  assumes "name_match ua is_space prev m r" "name_match ua is_space prev m' r'" "m @ r = m' @ r'"
  shows "m = m'" "r = r'"
proof -
  have "rmatch ua name_pattern prev (m @ r) = Some r"
    unfolding rmatch_name_pattern using assms(1) by blast
  moreover have "rmatch ua name_pattern prev (m @ r) = Some r'"
    unfolding rmatch_name_pattern using assms(2,3) by auto
  ultimately show "r = r'" by simp
  with assms(3) show "m = m'" by simp
qed

lemma ltr_matches_unique:
  assumes "ltr_matches ua prev t ms" "ltr_matches ua prev t ms'"
  shows "ms = ms'"
  using assms
proof (induction arbitrary: ms' rule: ltr_matches.induct)
  case (ltr_end prev)
  from ltr_end.prems have "ms' = []"
    by (cases rule: ltr_matches.cases) (auto simp: name_match_def dest: name_shaped_nonempty)
  then show ?case by simp
next
  case (ltr_skip c cs prev ms)
  from ltr_skip.prems show ?case
  proof (cases rule: ltr_matches.cases)
    case inner: ltr_skip
    then show ?thesis using ltr_skip.IH by simp
  next
    case inner: ltr_take
    then show ?thesis using ltr_skip.hyps(1) by metis
  qed
next
  case (ltr_take prev m r ms)
  have ne: "m \<noteq> []"
    using ltr_take.hyps(1) by (auto simp: name_match_def dest: name_shaped_nonempty)
  from ltr_take.prems show ?case
  proof (cases rule: ltr_matches.cases)
    case inner: ltr_end
    with ne show ?thesis by simp
  next
    case inner: ltr_skip
    then show ?thesis using ltr_take.hyps(1) by metis
  next
    case inner: (ltr_take m' r' ms'')
    from name_match_functional [OF ltr_take.hyps(1) inner(3) inner(1)]
    have "m = m'" "r = r'" .
    with inner show ?thesis using ltr_take.IH by simp
  qed
qed

lemma has_name_span_scan:
  "(\<exists>pre m r. t = pre @ m @ r \<and>
      name_match ua is_space (if pre = [] then prev else Some (last pre)) m r) \<longleftrightarrow>
   (\<exists>p\<in>set (scan ua name_pattern prev t). is_hit p)"
proof (induction ua pat\<equiv>name_pattern prev t rule: scan.induct)
  case (1 ua prev)
  show ?case by (auto simp: name_match_def dest: name_shaped_nonempty)
next
  case (2 ua prev c cs)
  show ?case
  proof (cases "rmatch ua name_pattern prev (c # cs)")
    case None
    then have no: "\<not> (\<exists>m r. c # cs = m @ r \<and> name_match ua is_space prev m r)"
      using rmatch_name_pattern [of ua prev "c # cs"] by auto
    have ih: "(\<exists>pre m r. cs = pre @ m @ r \<and>
          name_match ua is_space (if pre = [] then Some c else Some (last pre)) m r) \<longleftrightarrow>
        (\<exists>p\<in>set (scan ua name_pattern (Some c) cs). is_hit p)"
      using 2(1) [OF None] .
    have "(\<exists>pre m r. c # cs = pre @ m @ r \<and>
          name_match ua is_space (if pre = [] then prev else Some (last pre)) m r) \<longleftrightarrow>
        (\<exists>pre m r. cs = pre @ m @ r \<and>
          name_match ua is_space (if pre = [] then Some c else Some (last pre)) m r)"
      (is "?A \<longleftrightarrow> ?B")
    proof
      assume ?A
      then obtain pre m r where s: "c # cs = pre @ m @ r"
        and nm: "name_match ua is_space (if pre = [] then prev else Some (last pre)) m r"
        by blast
      from no s nm have "pre \<noteq> []" by auto
      then obtain pre' where pre: "pre = c # pre'" using s by (cases pre) auto
      have "cs = pre' @ m @ r" using s pre by simp
      moreover have "name_match ua is_space (if pre' = [] then Some c else Some (last pre')) m r"
        using nm pre by (cases "pre' = []") auto
      ultimately show ?B by blast
    next
      assume ?B
      then obtain pre m r where s: "cs = pre @ m @ r"
        and nm: "name_match ua is_space (if pre = [] then Some c else Some (last pre)) m r"
        by blast
      have "c # cs = (c # pre) @ m @ r" using s by simp
      moreover have "name_match ua is_space
          (if c # pre = [] then prev else Some (last (c # pre))) m r"
        using nm by (cases "pre = []") auto
      ultimately show ?A by blast
    qed
    with ih show ?thesis using None by simp
  next
    case (Some r)
    from scan_name_Some [OF Some] obtain m where m: "c # cs = m @ r"
      "name_match ua is_space prev m r"
      "scan ua name_pattern prev (c # cs) = Hit m # scan ua name_pattern (Some (last m)) r"
      by blast
    have "c # cs = [] @ m @ r" using m(1) by simp
    moreover have "name_match ua is_space (if ([]::pystr) = [] then prev else Some (last [])) m r"
      using m(2) by simp
    ultimately have "\<exists>pre m r. c # cs = pre @ m @ r \<and>
        name_match ua is_space (if pre = [] then prev else Some (last pre)) m r"
      by blast
    then show ?thesis unfolding m(3) by simp
  qed
qed

lemma has_name_span_iff:
  "has_name_span ua is_space text \<longleftrightarrow> finditer ua name_pattern text \<noteq> []"
proof -
  have "finditer ua name_pattern text \<noteq> [] \<longleftrightarrow>
      (\<exists>p\<in>set (scan ua name_pattern None text). is_hit p)"
    by (simp add: finditer_def filter_empty_conv)
  then show ?thesis
    unfolding has_name_span_def using has_name_span_scan [of "text" ua None] by simp
qed

section \<open>The replacement callback\<close>

lemma generate_pseudonym_event:
  assumes "generate_pseudonym ext self w = (r, w')"
  shows "\<exists>e. events w' = events w @ [e] \<and> event_result e = r \<and>
     (names self \<noteq> [] \<longrightarrow> e = RandomChoice r \<and> r \<in> set (names self))"
proof (cases "names self")
  case Nil
  obtain l where l: "fake self = Faker l" by (cases "fake self")
  show ?thesis using assms Nil l
    by (auto simp: generate_pseudonym_def split: if_splits prod.splits)
next
  case (Cons x xs)
  have "(x # xs) ! (rnd w 0 mod length (x # xs)) \<in> set (x # xs)"
    by (rule nth_mem) simp
  then show ?thesis using assms Cons
    by (auto simp: generate_pseudonym_def random_choice_def Let_def)
qed

lemma substitute_events:
  fixes repl :: "pystr \<Rightarrow> 'g world \<Rightarrow> pystr \<times> 'g world"
  assumes cb: "\<And>m s r s'. repl m s = (r, s') \<Longrightarrow>
      \<exists>e. events s' = events s @ [e] \<and> event_result e = r \<and> Q e"
  shows "substitute repl ps s = (out, s') \<Longrightarrow>
     \<exists>es. events s' = events s @ es \<and> length es = length (filter is_hit ps) \<and>
       out = fill ps (map event_result es) \<and> list_all Q es"
proof (induction ps arbitrary: s out s')
  case Nil
  then show ?case by simp
next
  case (Cons p ps)
  show ?case
  proof (cases p)
    case (Lit c)
    obtain out1 s1 where sub: "substitute repl ps s = (out1, s1)"
      by (cases "substitute repl ps s")
    with Cons.prems Lit have o: "out = c # out1" "s' = s1" by auto
    from Cons.IH [OF sub] obtain es where "events s1 = events s @ es"
      "length es = length (filter is_hit ps)" "out1 = fill ps (map event_result es)"
      "list_all Q es" by blast
    with o Lit show ?thesis by auto
  next
    case (Hit m)
    obtain new s0 where rp: "repl m s = (new, s0)" by (cases "repl m s")
    obtain out1 s1 where sub: "substitute repl ps s0 = (out1, s1)"
      by (cases "substitute repl ps s0")
    with Cons.prems Hit rp have o: "out = new @ out1" "s' = s1" by auto
    from cb [OF rp] obtain e where e: "events s0 = events s @ [e]" "event_result e = new" "Q e"
      by blast
    from Cons.IH [OF sub] obtain es where es: "events s1 = events s0 @ es"
      "length es = length (filter is_hit ps)" "out1 = fill ps (map event_result es)"
      "list_all Q es" by blast
    have "events s' = events s @ (e # es)" using o e es by simp
    moreover have "length (e # es) = length (filter is_hit (p # ps))" using es Hit by simp
    moreover have "out = fill (p # ps) (map event_result (e # es))" using o e es Hit by simp
    moreover have "list_all Q (e # es)" using e es by simp
    ultimately show ?thesis by blast
  qed
qed

lemma pseudonymize_text_events:
  assumes "pseudonymize_text ext self text w = (out, w')"
  shows "\<exists>es. events w' = events w @ es \<and>
     length es = length (filter is_hit (scan (uni_alnum ext) name_pattern None text)) \<and>
     out = fill (scan (uni_alnum ext) name_pattern None text) (map event_result es) \<and>
     list_all (\<lambda>e. names self \<noteq> [] \<longrightarrow> e = RandomChoice (event_result e) \<and>
        event_result e \<in> set (names self)) es"
proof -
  have sub: "substitute (replace_name ext self) (scan (uni_alnum ext) name_pattern None text) w =
      (out, w')"
    using assms by (simp add: pseudonymize_text_def re_sub_def re_sub_from_substitute)
  show ?thesis
  proof (rule substitute_events [OF _ sub])
    fix m s r s'
    assume "replace_name ext self m s = (r, s')"
    then have "generate_pseudonym ext self s = (r, s')" by (simp add: replace_name_def)
    from generate_pseudonym_event [OF this]
    show "\<exists>e. events s' = events s @ [e] \<and> event_result e = r \<and>
        (names self \<noteq> [] \<longrightarrow> e = RandomChoice (event_result e) \<and>
          event_result e \<in> set (names self))"
      by auto
  qed
qed

lemma fill_no_hit: "\<forall>p\<in>set ps. \<not> is_hit p \<Longrightarrow> fill ps rs = concat (map piece_text ps)"
proof (induction ps)
  case Nil
  show ?case by simp
next
  case (Cons p ps)
  then show ?case by (cases p) auto
qed

lemma substitute_no_hit:
  "\<forall>p\<in>set ps. \<not> is_hit p \<Longrightarrow> substitute repl ps s = (concat (map piece_text ps), s)"
proof (induction ps)
  case Nil
  show ?case by simp
next
  case (Cons p ps)
  then show ?case by (cases p) auto
qed

lemma substitute_constant:
  assumes "\<And>m s. fst (repl m s) = n"
  shows "fst (substitute repl ps s) = fill ps (replicate (length (filter is_hit ps)) n)"
proof (induction ps arbitrary: s)
  case Nil
  show ?case by simp
next
  case (Cons p ps)
  show ?case
  proof (cases p)
    case (Lit c)
    then show ?thesis using Cons.IH [of s] by (auto split: prod.splits)
  next
    case (Hit m)
    obtain new s0 where rp: "repl m s = (new, s0)" by (cases "repl m s")
    then have "new = n" using assms [of m s] by simp
    with Hit rp show ?thesis using Cons.IH [of s0] by (auto split: prod.splits)
  qed
qed

lemmas eval_defs =
  pseudonymize_text_def re_sub_def py_def name_pattern_def is_word_def is_space_def
  replace_name_def generate_pseudonym_def random_choice_def Let_def at_boundary_def
  finditer_def

section \<open>Properties of \<open>pseudonymize_text\<close>\<close>

lemma new_events_append: "events w' = events w @ es \<Longrightarrow> new_events w w' = es"
  by (simp add: new_events_def)

lemma substitute_preserves:
  assumes "\<And>m s r s'. repl m s = (r, s') \<Longrightarrow> f s' = f s"
  shows "substitute repl ps s = (out, s') \<Longrightarrow> f s' = f s"
proof (induction ps arbitrary: s out s')
  case Nil
  then show ?case by simp
next
  case (Cons p ps)
  show ?case
  proof (cases p)
    case (Lit c)
    obtain out1 s1 where sub: "substitute repl ps s = (out1, s1)"
      by (cases "substitute repl ps s")
    with Cons.prems Lit have "s' = s1" by auto
    with Cons.IH [OF sub] show ?thesis by simp
  next
    case (Hit m)
    obtain new s0 where rp: "repl m s = (new, s0)" by (cases "repl m s")
    obtain out1 s1 where sub: "substitute repl ps s0 = (out1, s1)"
      by (cases "substitute repl ps s0")
    with Cons.prems Hit rp have "s' = s1" by auto
    with Cons.IH [OF sub] assms [OF rp] show ?thesis by simp
  qed
qed

lemma pseudonymize_text_substitute:
  "pseudonymize_text ext self text w =
     substitute (replace_name ext self) (scan (uni_alnum ext) name_pattern None text) w"
  by (simp add: pseudonymize_text_def re_sub_def re_sub_from_substitute)

lemma finditer_length:
  "length (finditer ua pat text) = length (filter is_hit (scan ua pat None text))"
  by (simp add: finditer_def)

lemma name_span_has_sep: "has_name_span ua sep text \<Longrightarrow> \<exists>s\<in>set text. sep s"
  by (auto simp: has_name_span_def name_match_def name_shaped_def)

text \<open>
  C1, as amended.  \<open>pseudonymize_text\<close> decomposes the text into the matches of the
  pattern, left to right, and the characters between them; the output is the same
  decomposition with each match replaced by the pseudonym generated for it, and every
  other character kept, in order.  Each replaced span is name-shaped: a capitalized word,
  one whitespace character (any character \<open>\s\<close> accepts, not only the space), a
  capitalized word.  In particular, a text with no such span between word boundaries comes
  back unchanged, and no pseudonym is generated.
\<close>

theorem pseudonymize_text_frame:
  assumes run: "pseudonymize_text ext self text w = (out, w')"
  shows "concat (map piece_text (scan (uni_alnum ext) name_pattern None text)) = text \<and>
    out = fill (scan (uni_alnum ext) name_pattern None text)
            (map event_result (new_events w w')) \<and>
    length (new_events w w') =
      length (filter is_hit (scan (uni_alnum ext) name_pattern None text)) \<and>
    (\<forall>m. Hit m \<in> set (scan (uni_alnum ext) name_pattern None text) \<longrightarrow>
       name_shaped is_space m) \<and>
    (\<not> has_name_span (uni_alnum ext) is_space text \<longrightarrow> out = text \<and> w' = w)"
proof -
  let ?ps = "scan (uni_alnum ext) name_pattern None text"
  from pseudonymize_text_events [OF run] obtain es where es: "events w' = events w @ es"
    "length es = length (filter is_hit ?ps)" "out = fill ?ps (map event_result es)"
    by blast
  have ne: "new_events w w' = es" using es(1) by (rule new_events_append)
  have a: "concat (map piece_text ?ps) = text" by (rule scan_concat)
  have b: "out = fill ?ps (map event_result (new_events w w'))" using es(3) ne by simp
  have c: "length (new_events w w') = length (filter is_hit ?ps)" using es(2) ne by simp
  have d: "\<forall>m. Hit m \<in> set ?ps \<longrightarrow> name_shaped is_space m"
    using scan_hits_match by blast
  have e: "out = text \<and> w' = w" if "\<not> has_name_span (uni_alnum ext) is_space text"
  proof -
    from that have "finditer (uni_alnum ext) name_pattern text = []"
      by (simp add: has_name_span_iff)
    then have "\<forall>p\<in>set ?ps. \<not> is_hit p"
      by (simp add: finditer_def filter_empty_conv)
    from substitute_no_hit [OF this] have "pseudonymize_text ext self text w = (text, w)"
      by (simp add: pseudonymize_text_substitute a)
    with run show ?thesis by simp
  qed
  from a b c d e show ?thesis by blast
qed

text \<open>
  C1 instantiated: a text without name-shaped span is returned as it is, and the span
  found in \<open>"Alice Smith met Bob."\<close> is name-shaped.
\<close>

theorem pseudonymize_text_frame_witness:
  "\<not> has_name_span (uni_alnum demo_ext) is_space (py ''no names here.'') \<and>
   pseudonymize_text demo_ext demo_self (py ''no names here.'') demo_world =
     (py ''no names here.'', demo_world) \<and>
   Hit (py ''Alice Smith'') \<in>
     set (scan (uni_alnum demo_ext) name_pattern None (py ''Alice Smith met Bob.'')) \<and>
   name_shaped is_space (py ''Alice Smith'')"
proof -
  have nh: "\<not> has_name_span (uni_alnum demo_ext) is_space (py ''no names here.'')"
    by (simp add: has_name_span_iff eval_defs demo_ext_def)
  obtain out w' where run:
    "pseudonymize_text demo_ext demo_self (py ''no names here.'') demo_world = (out, w')"
    by (cases "pseudonymize_text demo_ext demo_self (py ''no names here.'') demo_world")
  from pseudonymize_text_frame [OF run] nh have "out = py ''no names here.'' \<and> w' = demo_world"
    by blast
  with run have 1: "pseudonymize_text demo_ext demo_self (py ''no names here.'') demo_world =
     (py ''no names here.'', demo_world)" by simp
  have hit: "Hit (py ''Alice Smith'') \<in>
     set (scan (uni_alnum demo_ext) name_pattern None (py ''Alice Smith met Bob.''))"
    by (simp add: eval_defs demo_ext_def)
  obtain out2 w2 where run2:
    "pseudonymize_text demo_ext demo_self (py ''Alice Smith met Bob.'') demo_world = (out2, w2)"
    by (cases "pseudonymize_text demo_ext demo_self (py ''Alice Smith met Bob.'') demo_world")
  from pseudonymize_text_frame [OF run2] hit have 2: "name_shaped is_space (py ''Alice Smith'')"
    by blast
  from nh 1 hit 2 show ?thesis by blast
qed

text \<open>
  C1 as stated, with the separator read as one space character, fails: a tab between the
  two words gives a text with no span of the stated shape, and the text is changed.
\<close>

theorem frame_one_space_counterexample:
  "\<not> has_name_span (uni_alnum demo_ext) is_blank (py ''Alice'' @ [9] @ py ''Smith'') \<and>
   fst (pseudonymize_text demo_ext demo_self (py ''Alice'' @ [9] @ py ''Smith'') demo_world) =
     py ''Jordan Lee'' \<and>
   py ''Jordan Lee'' \<noteq> py ''Alice'' @ [9] @ py ''Smith''"
proof -
  have "\<not> (\<exists>s\<in>set (py ''Alice'' @ [9] @ py ''Smith''). is_blank s)"
    by (simp add: py_def is_blank_def)
  then have 1: "\<not> has_name_span (uni_alnum demo_ext) is_blank (py ''Alice'' @ [9] @ py ''Smith'')"
    using name_span_has_sep by blast
  have 2: "fst (pseudonymize_text demo_ext demo_self (py ''Alice'' @ [9] @ py ''Smith'') demo_world) =
     py ''Jordan Lee''"
    by (simp add: eval_defs demo_ext_def demo_self_def demo_world_def)
  have 3: "py ''Jordan Lee'' \<noteq> py ''Alice'' @ [9] @ py ''Smith''"
    by (simp add: py_def)
  from 1 2 3 show ?thesis by blast
qed

text \<open>
  C2.  \<open>pseudonymize_text\<close> decomposes the text into the matches \<open>re.finditer\<close> finds
  for the pattern and the characters between them.  Its output is this decomposition
  with every match replaced by the string one call to pseudonym generation returned, the
  calls taken in order, and every other character kept: the spans replaced are these
  matches, and the calls made to pseudonym generation are as many.  The matches are the
  non-overlapping matches of the pattern taken left to right, and there is one such
  sequence only.
\<close>

theorem substitution_count:
  assumes run: "pseudonymize_text ext self text w = (out, w')"
  shows "events w' = events w @ new_events w w' \<and>
    concat (map piece_text (scan (uni_alnum ext) name_pattern None text)) = text \<and>
    map piece_text (filter is_hit (scan (uni_alnum ext) name_pattern None text)) =
      finditer (uni_alnum ext) name_pattern text \<and>
    out = fill (scan (uni_alnum ext) name_pattern None text)
            (map event_result (new_events w w')) \<and>
    length (new_events w w') = length (finditer (uni_alnum ext) name_pattern text) \<and>
    length (filter is_hit (scan (uni_alnum ext) name_pattern None text)) =
      length (finditer (uni_alnum ext) name_pattern text) \<and>
    ltr_matches (uni_alnum ext) None text (finditer (uni_alnum ext) name_pattern text) \<and>
    (\<forall>ms. ltr_matches (uni_alnum ext) None text ms \<longrightarrow>
       ms = finditer (uni_alnum ext) name_pattern text)"
proof -
  let ?ps = "scan (uni_alnum ext) name_pattern None text"
  from pseudonymize_text_events [OF run] obtain es where es: "events w' = events w @ es"
    "length es = length (filter is_hit ?ps)" "out = fill ?ps (map event_result es)"
    by blast
  have ne: "new_events w w' = es" using es(1) by (rule new_events_append)
  have dc: "concat (map piece_text ?ps) = text" by (rule scan_concat)
  have hs: "map piece_text (filter is_hit ?ps) = finditer (uni_alnum ext) name_pattern text"
    by (simp add: finditer_def)
  have o: "out = fill ?ps (map event_result (new_events w w'))" using es(3) ne by simp
  have l: "ltr_matches (uni_alnum ext) None text (finditer (uni_alnum ext) name_pattern text)"
    unfolding finditer_def by (rule scan_ltr_matches)
  have u: "\<forall>ms. ltr_matches (uni_alnum ext) None text ms \<longrightarrow>
       ms = finditer (uni_alnum ext) name_pattern text"
    using ltr_matches_unique [OF _ l] by blast
  have a: "events w' = events w @ new_events w w'" using es(1) ne by simp
  have b: "length (new_events w w') = length (finditer (uni_alnum ext) name_pattern text)"
    using es(2) ne by (simp add: finditer_length)
  have c: "length (filter is_hit ?ps) = length (finditer (uni_alnum ext) name_pattern text)"
    by (simp add: finditer_length)
  from a dc hs o b c l u show ?thesis by blast
qed

text \<open>C2 instantiated: three matches, three calls, three spans replaced.\<close>

theorem substitution_count_witness:
  "length (new_events demo_world
      (snd (pseudonymize_text demo_ext demo_self
              (py ''Ann Lee met Bob Roe in New York.'') demo_world))) = 3 \<and>
   finditer (uni_alnum demo_ext) name_pattern
      (py ''Ann Lee met Bob Roe in New York.'') =
     [py ''Ann Lee'', py ''Bob Roe'', py ''New York''] \<and>
   fst (pseudonymize_text demo_ext demo_self
          (py ''Ann Lee met Bob Roe in New York.'') demo_world) =
     py ''Jordan Lee met Jordan Lee in Jordan Lee.''"
proof -
  obtain out w' where run: "pseudonymize_text demo_ext demo_self
      (py ''Ann Lee met Bob Roe in New York.'') demo_world = (out, w')"
    by (cases "pseudonymize_text demo_ext demo_self
      (py ''Ann Lee met Bob Roe in New York.'') demo_world")
  have f: "finditer (uni_alnum demo_ext) name_pattern
      (py ''Ann Lee met Bob Roe in New York.'') =
     [py ''Ann Lee'', py ''Bob Roe'', py ''New York'']"
    by (simp add: eval_defs demo_ext_def)
  from substitution_count [OF run]
  have "length (new_events demo_world w') =
      length (finditer (uni_alnum demo_ext) name_pattern
        (py ''Ann Lee met Bob Roe in New York.''))"
    by blast
  then have "length (new_events demo_world w') = 3" unfolding f by simp
  moreover have "snd (pseudonymize_text demo_ext demo_self
      (py ''Ann Lee met Bob Roe in New York.'') demo_world) = w'"
    unfolding run by simp
  moreover have "fst (pseudonymize_text demo_ext demo_self
          (py ''Ann Lee met Bob Roe in New York.'') demo_world) =
     py ''Jordan Lee met Jordan Lee in Jordan Lee.''"
    by (simp add: eval_defs demo_ext_def demo_self_def demo_world_def)
  ultimately show ?thesis using f by blast
qed

text \<open>
  C3.  With a non-empty name list, \<open>pseudonymize_text\<close> replaces every matched span by
  a member of the list: its output is the decomposition of the text with the matches
  replaced, in order, by strings of the list, one for each match, each the result of one
  \<open>random.choice\<close>.  No call goes to the synthetic generator, and the generator's
  state is left as it was.
\<close>

theorem name_list_only:
  assumes ne: "names self \<noteq> []" and run: "pseudonymize_text ext self text w = (out, w')"
  shows "events w' = events w @ new_events w w' \<and>
    out = fill (scan (uni_alnum ext) name_pattern None text)
            (map event_result (new_events w w')) \<and>
    length (new_events w w') =
      length (filter is_hit (scan (uni_alnum ext) name_pattern None text)) \<and>
    (\<forall>e\<in>set (new_events w w'). \<not> is_faker_event e \<and> event_result e \<in> set (names self)) \<and>
    fk w' = fk w"
proof -
  let ?ps = "scan (uni_alnum ext) name_pattern None text"
  from pseudonymize_text_events [OF run] obtain es where es: "events w' = events w @ es"
    "out = fill ?ps (map event_result es)"
    "list_all (\<lambda>e. names self \<noteq> [] \<longrightarrow> e = RandomChoice (event_result e) \<and>
        event_result e \<in> set (names self)) es"
    and len: "length es = length (filter is_hit ?ps)"
    by blast
  have nev: "new_events w w' = es" using es(1) by (rule new_events_append)
  have a: "\<forall>e\<in>set es. \<not> is_faker_event e \<and> event_result e \<in> set (names self)"
  proof
    fix e assume "e \<in> set es"
    with es(3) ne have "e = RandomChoice (event_result e)" "event_result e \<in> set (names self)"
      by (auto simp: list_all_iff)
    then show "\<not> is_faker_event e \<and> event_result e \<in> set (names self)"
      by (metis is_faker_event.simps(1))
  qed
  have keep: "fk s' = fk s" if "replace_name ext self m s = (r, s')" for m s r s'
    using that ne
    by (cases "names self") (auto simp: replace_name_def generate_pseudonym_def random_choice_def Let_def)
  have "fk w' = fk w"
    using substitute_preserves [of "replace_name ext self" fk ?ps w out w'] keep run
    by (simp add: pseudonymize_text_substitute)
  with es(1) es(2) len nev a show ?thesis by simp
qed

text \<open>C3 instantiated on a list of two names and a text with two matches.\<close>

theorem name_list_only_witness:
  "names (demo_self\<lparr>names := [py ''Jordan Lee'', py ''Kim Roe'']\<rparr>) \<noteq> [] \<and>
   fst (pseudonymize_text demo_ext (demo_self\<lparr>names := [py ''Jordan Lee'', py ''Kim Roe'']\<rparr>)
          (py ''Alice Smith met Bob Jones.'') demo_world) = py ''Jordan Lee met Kim Roe.'' \<and>
   length (new_events demo_world
        (snd (pseudonymize_text demo_ext (demo_self\<lparr>names := [py ''Jordan Lee'', py ''Kim Roe'']\<rparr>)
               (py ''Alice Smith met Bob Jones.'') demo_world))) = 2 \<and>
   list_all (\<lambda>e. \<not> is_faker_event e \<and> event_result e \<in> {py ''Jordan Lee'', py ''Kim Roe''})
     (new_events demo_world
        (snd (pseudonymize_text demo_ext (demo_self\<lparr>names := [py ''Jordan Lee'', py ''Kim Roe'']\<rparr>)
               (py ''Alice Smith met Bob Jones.'') demo_world))) \<and>
   fk (snd (pseudonymize_text demo_ext (demo_self\<lparr>names := [py ''Jordan Lee'', py ''Kim Roe'']\<rparr>)
               (py ''Alice Smith met Bob Jones.'') demo_world)) = 0"
proof -
  let ?self = "demo_self\<lparr>names := [py ''Jordan Lee'', py ''Kim Roe'']\<rparr>"
  have ne: "names ?self \<noteq> []" by simp
  obtain out w' where run: "pseudonymize_text demo_ext ?self
      (py ''Alice Smith met Bob Jones.'') demo_world = (out, w')"
    by (cases "pseudonymize_text demo_ext ?self (py ''Alice Smith met Bob Jones.'') demo_world")
  have o: "fst (pseudonymize_text demo_ext ?self (py ''Alice Smith met Bob Jones.'') demo_world) =
      py ''Jordan Lee met Kim Roe.''"
    by (simp add: eval_defs demo_ext_def demo_self_def demo_world_def)
  have h: "length (filter is_hit
      (scan (uni_alnum demo_ext) name_pattern None (py ''Alice Smith met Bob Jones.''))) = 2"
    by (simp add: eval_defs demo_ext_def)
  from name_list_only [OF ne run] run o h show ?thesis
    by (simp add: demo_world_def list_all_iff)
qed

text \<open>
  C5.  With a name list of exactly one entry the output of \<open>pseudonymize_text\<close> does not
  depend on the world it runs in, the state of the random source included: every match
  is replaced by that entry.
\<close>

theorem single_name_deterministic:
  assumes "names self = [n]"
  shows "fst (pseudonymize_text ext self text w1) = fst (pseudonymize_text ext self text w2) \<and>
    fst (pseudonymize_text ext self text w1) =
      fill (scan (uni_alnum ext) name_pattern None text)
        (replicate (length (finditer (uni_alnum ext) name_pattern text)) n)"
proof -
  have const: "fst (replace_name ext self m s) = n" for m and s :: "'a world"
    using assms by (simp add: replace_name_def generate_pseudonym_def random_choice_def)
  have "fst (pseudonymize_text ext self text w) =
      fill (scan (uni_alnum ext) name_pattern None text)
        (replicate (length (finditer (uni_alnum ext) name_pattern text)) n)" for w :: "'a world"
    unfolding pseudonymize_text_substitute finditer_length
    by (rule substitute_constant) (rule const)
  then show ?thesis by simp
qed

text \<open>C5 instantiated on two different random sources.\<close>

theorem single_name_deterministic_witness:
  "names demo_self = [py ''Jordan Lee''] \<and>
   fst (pseudonymize_text demo_ext demo_self (py ''Alice Smith met Bob.'') demo_world) =
   fst (pseudonymize_text demo_ext demo_self (py ''Alice Smith met Bob.'')
          (demo_world\<lparr>rnd := (\<lambda>k. 7 * k + 3)\<rparr>))"
proof -
  have n: "names demo_self = [py ''Jordan Lee'']" by (simp add: demo_self_def)
  from single_name_deterministic [OF n, of demo_ext "py ''Alice Smith met Bob.''" demo_world
      "demo_world\<lparr>rnd := (\<lambda>k. 7 * k + 3)\<rparr>"] n
  show ?thesis by blast
qed

section \<open>Construction and generation\<close>

lemma init_Inr:
  assumes "NamePseudonymizer_init ext p g l w0 = (Inr self, w1)"
  shows "gender self = g" "locale_id self = l" "fake self = Faker l" "faker_supports ext l"
  using assms
  by (auto simp: NamePseudonymizer_init_def Let_def open_read_def
      split: if_splits option.splits sum.splits error.splits prod.splits)

text \<open>
  C7.  On an object the constructor returned whose name list is empty, each call to
  pseudonym generation is one call to the generator bound to the configured locale: its
  male-name operation when the gender is \<open>'male'\<close>, its female-name operation when it is
  \<open>'female'\<close>, its unconstrained operation when the gender is unset.
\<close>

theorem generator_dispatch:
  assumes init: "NamePseudonymizer_init ext p g l w0 = (Inr self, w1)"
    and empty: "names self = []"
  shows "(g = Some ''male'' \<longrightarrow>
       generate_pseudonym ext self w = faker_call ext (Faker l) NameMale w) \<and>
    (g = Some ''female'' \<longrightarrow>
       generate_pseudonym ext self w = faker_call ext (Faker l) NameFemale w) \<and>
    (g = None \<longrightarrow>
       generate_pseudonym ext self w = faker_call ext (Faker l) Name w) \<and>
    (\<exists>k. new_events w (snd (generate_pseudonym ext self w)) =
       [FakerName l k (fst (generate_pseudonym ext self w))])"
proof -
  note i = init_Inr [OF init]
  have a: "g = Some ''male'' \<longrightarrow>
       generate_pseudonym ext self w = faker_call ext (Faker l) NameMale w"
    using i empty by (simp add: generate_pseudonym_def)
  have b: "g = Some ''female'' \<longrightarrow>
       generate_pseudonym ext self w = faker_call ext (Faker l) NameFemale w"
    using i empty by (simp add: generate_pseudonym_def)
  have c: "g = None \<longrightarrow>
       generate_pseudonym ext self w = faker_call ext (Faker l) Name w"
    using i empty by (simp add: generate_pseudonym_def)
  have call: "new_events w (snd (faker_call ext (Faker l) k w)) =
      [FakerName l k (fst (faker_call ext (Faker l) k w))]" for k
    by (simp add: new_events_def split: prod.splits)
  have "generate_pseudonym ext self w = faker_call ext (Faker l)
      (if g = Some ''male'' then NameMale else if g = Some ''female'' then NameFemale else Name) w"
    using i empty by (simp add: generate_pseudonym_def del: faker_call.simps)
  then have "\<exists>k. generate_pseudonym ext self w = faker_call ext (Faker l) k w" by blast
  then obtain k where "generate_pseudonym ext self w = faker_call ext (Faker l) k w" ..
  with call [of k] have d: "\<exists>k. new_events w (snd (generate_pseudonym ext self w)) =
       [FakerName l k (fst (generate_pseudonym ext self w))]"
    by auto
  from a b c d show ?thesis by blast
qed

text \<open>C7 instantiated for the three gender settings, on the locale \<open>en_US\<close>.\<close>

theorem generator_dispatch_witness:
  "generate_pseudonym demo_ext
      \<lparr>names = [], gender = Some ''male'', locale_id = ''en_US'', fake = Faker ''en_US''\<rparr>
      demo_world =
     faker_call demo_ext (Faker ''en_US'') NameMale demo_world \<and>
   generate_pseudonym demo_ext
      \<lparr>names = [], gender = Some ''female'', locale_id = ''en_US'', fake = Faker ''en_US''\<rparr>
      demo_world =
     faker_call demo_ext (Faker ''en_US'') NameFemale demo_world \<and>
   generate_pseudonym demo_ext
      \<lparr>names = [], gender = None, locale_id = ''en_US'', fake = Faker ''en_US''\<rparr>
      demo_world =
     faker_call demo_ext (Faker ''en_US'') Name demo_world"
proof -
  have i: "NamePseudonymizer_init demo_ext None g ''en_US'' demo_world =
      (Inr \<lparr>names = [], gender = g, locale_id = ''en_US'', fake = Faker ''en_US''\<rparr>, demo_world)"
    for g
    by (simp add: NamePseudonymizer_init_def demo_ext_def)
  have e: "names \<lparr>names = [], gender = g, locale_id = ''en_US'', fake = Faker ''en_US''\<rparr> = []"
    for g :: "string option"
    by simp
  from generator_dispatch [OF i [of "Some ''male''"] e, of demo_world]
    generator_dispatch [OF i [of "Some ''female''"] e, of demo_world]
    generator_dispatch [OF i [of None] e, of demo_world]
  show ?thesis by blast
qed

section \<open>Reading the name list\<close>

lemma file_lines_concat: "concat (file_lines t) = t"
proof (induction t)
  case Nil
  show ?case by simp
next
  case (Cons c cs)
  then show ?case by (cases "file_lines cs") (auto split: if_splits)
qed

lemma file_lines_shape: "l \<in> set (file_lines t) \<Longrightarrow> l \<noteq> [] \<and> 10 \<notin> set (butlast l)"
proof (induction t arbitrary: l)
  case Nil
  then show ?case by simp
next
  case (Cons c cs)
  show ?case
  proof (cases "c = 10")
    case True
    with Cons show ?thesis by auto
  next
    case False
    show ?thesis
    proof (cases "file_lines cs")
      case Nil
      with Cons.prems False show ?thesis by simp
    next
      case (Cons k ks)
      with Cons.prems False consider "l = c # k" | "l \<in> set ks" by auto
      then show ?thesis
      proof cases
        case 1
        have "k \<noteq> [] \<and> 10 \<notin> set (butlast k)" using Cons.IH [of k] Cons by simp
        with 1 False show ?thesis by simp
      next
        case 2
        then show ?thesis using Cons.IH [of l] Cons by simp
      qed
    qed
  qed
qed

lemma strip_decomp:
  "\<exists>pre post. s = pre @ strip s @ post \<and> list_all is_space pre \<and> list_all is_space post \<and>
     (strip s = [] \<or> \<not> is_space (hd (strip s)) \<and> \<not> is_space (last (strip s)))"
proof -
  define a where "a = takeWhile is_space s"
  define b where "b = dropWhile is_space s"
  define post where "post = rev (takeWhile is_space (rev b))"
  have s: "s = a @ b" by (simp add: a_def b_def)
  have st: "strip s = rev (dropWhile is_space (rev b))" by (simp add: strip_def b_def)
  have "rev (takeWhile is_space (rev b) @ dropWhile is_space (rev b)) = rev (rev b)"
    by (simp only: takeWhile_dropWhile_id)
  then have "rev (dropWhile is_space (rev b)) @ rev (takeWhile is_space (rev b)) = b"
    by (simp only: rev_append rev_rev_ident)
  then have b: "b = strip s @ post" unfolding st post_def by (rule sym)
  have pa: "list_all is_space a"
    using set_takeWhileD [of _ is_space s] by (auto simp: a_def list_all_iff)
  have pp: "list_all is_space post"
    using set_takeWhileD [of _ is_space "rev b"] by (auto simp: post_def list_all_iff)
  have ends: "\<not> is_space (hd (strip s)) \<and> \<not> is_space (last (strip s))" if ne: "strip s \<noteq> []"
  proof -
    from ne have dne: "dropWhile is_space (rev b) \<noteq> []" by (simp add: st)
    have "last (strip s) = hd (dropWhile is_space (rev b))"
      using dne by (simp add: st last_rev)
    moreover have "\<not> is_space (hd (dropWhile is_space (rev b)))"
      using dne by (rule hd_dropWhile)
    ultimately have l: "\<not> is_space (last (strip s))" by simp
    have bne: "b \<noteq> []" using b ne by auto
    have "hd (strip s) = hd b" using b ne by (metis hd_append2)
    moreover have "\<not> is_space (hd b)" using bne unfolding b_def by (rule hd_dropWhile)
    ultimately show ?thesis using l by simp
  qed
  have "s = a @ strip s @ post" using s b by simp
  with pa pp ends show ?thesis by blast
qed

lemma init_read:
  assumes "read_result (fs w) p = Inr b" "decode ext (Some ''utf-8'') b = Some t"
    "faker_supports ext l"
  shows "NamePseudonymizer_init ext (Some p) g l w =
     (Inr \<lparr>names = map strip (file_lines (universal_newlines t)), gender = g, locale_id = l,
           fake = Faker l\<rparr>,
      w\<lparr>io := io w @ [OpenRead p]\<rparr>)"
proof -
  have "p \<noteq> []" using assms(1) by (auto simp: read_result_def)
  then show ?thesis using assms
    by (simp add: NamePseudonymizer_init_def open_read_def Let_def)
qed

lemma demo_names_lines:
  "map strip (file_lines (universal_newlines
      (map of_char ''Jordan Lee\<newline>\<newline>  Kim Roe \<newline>Jordan Lee''))) =
   [py ''Jordan Lee'', [], py ''Kim Roe'', py ''Jordan Lee'']"
  by (simp add: strip_def is_space_def py_def)

text \<open>
  C6.  When the file at the name-list path can be read and decoded, the name list of the
  object the constructor returns is the list of the file's lines, in file order, each
  stripped of the whitespace around it; the constructor does return an object when the
  generator accepts the locale.  Nothing is filtered: there is one entry for each line,
  the lines make up the text of the file, an entry is its line without a whitespace
  prefix and a whitespace suffix (the terminator is whitespace), and a line of
  whitespace only gives the empty entry.
\<close>

theorem name_list_lines:
  assumes rd: "read_result (fs w) p = Inr b" and dec: "decode ext (Some ''utf-8'') b = Some t"
  shows "(\<forall>self w'. NamePseudonymizer_init ext (Some p) g l w = (Inr self, w') \<longrightarrow>
       names self = map strip (file_lines (universal_newlines t))) \<and>
    (faker_supports ext l \<longrightarrow>
       (\<exists>self. NamePseudonymizer_init ext (Some p) g l w = (Inr self, w\<lparr>io := io w @ [OpenRead p]\<rparr>) \<and>
          names self = map strip (file_lines (universal_newlines t)))) \<and>
    concat (file_lines (universal_newlines t)) = universal_newlines t \<and>
    (\<forall>k\<in>set (file_lines (universal_newlines t)). k \<noteq> [] \<and> 10 \<notin> set (butlast k)) \<and>
    (\<forall>i<length (file_lines (universal_newlines t)).
       \<exists>pre post.
         file_lines (universal_newlines t) ! i =
           pre @ map strip (file_lines (universal_newlines t)) ! i @ post \<and>
         list_all is_space pre \<and> list_all is_space post \<and>
         (map strip (file_lines (universal_newlines t)) ! i = [] \<or>
          \<not> is_space (hd (map strip (file_lines (universal_newlines t)) ! i)) \<and>
          \<not> is_space (last (map strip (file_lines (universal_newlines t)) ! i))))"
proof -
  let ?L = "file_lines (universal_newlines t)"
  have a: "\<forall>self w'. NamePseudonymizer_init ext (Some p) g l w = (Inr self, w') \<longrightarrow>
       names self = map strip ?L"
  proof (intro allI impI)
    fix self w'
    assume i: "NamePseudonymizer_init ext (Some p) g l w = (Inr self, w')"
    from init_Inr(4) [OF i] have "faker_supports ext l" .
    from init_read [OF rd dec this, of g] i show "names self = map strip ?L" by auto
  qed
  have b: "faker_supports ext l \<longrightarrow>
       (\<exists>self. NamePseudonymizer_init ext (Some p) g l w = (Inr self, w\<lparr>io := io w @ [OpenRead p]\<rparr>) \<and>
          names self = map strip ?L)"
  proof
    assume "faker_supports ext l"
    from init_read [OF rd dec this, of g]
    show "\<exists>self. NamePseudonymizer_init ext (Some p) g l w = (Inr self, w\<lparr>io := io w @ [OpenRead p]\<rparr>) \<and>
          names self = map strip ?L"
      by simp
  qed
  have c: "concat ?L = universal_newlines t" by (rule file_lines_concat)
  have d: "\<forall>k\<in>set ?L. k \<noteq> [] \<and> 10 \<notin> set (butlast k)"
    using file_lines_shape by blast
  have e: "\<forall>i<length ?L. \<exists>pre post.
         ?L ! i = pre @ map strip ?L ! i @ post \<and>
         list_all is_space pre \<and> list_all is_space post \<and>
         (map strip ?L ! i = [] \<or>
          \<not> is_space (hd (map strip ?L ! i)) \<and> \<not> is_space (last (map strip ?L ! i)))"
  proof (intro allI impI)
    fix i assume "i < length ?L"
    then have "map strip ?L ! i = strip (?L ! i)" by simp
    with strip_decomp [of "?L ! i"]
    show "\<exists>pre post.
         ?L ! i = pre @ map strip ?L ! i @ post \<and>
         list_all is_space pre \<and> list_all is_space post \<and>
         (map strip ?L ! i = [] \<or>
          \<not> is_space (hd (map strip ?L ! i)) \<and> \<not> is_space (last (map strip ?L ! i)))"
      by simp
  qed
  from a b c d e show ?thesis by blast
qed

text \<open>
  C6 instantiated on a file of four lines with a blank line, padding and a duplicate.
\<close>

theorem name_list_lines_witness:
  "read_result (fs demo_world) ''names.txt'' =
     Inr ''Jordan Lee\<newline>\<newline>  Kim Roe \<newline>Jordan Lee'' \<and>
   fst (NamePseudonymizer_init demo_ext (Some ''names.txt'') None ''en_US'' demo_world) =
     Inr \<lparr>names = [py ''Jordan Lee'', [], py ''Kim Roe'', py ''Jordan Lee''], gender = None,
          locale_id = ''en_US'', fake = Faker ''en_US''\<rparr>"
proof -
  have rd: "read_result (fs demo_world) ''names.txt'' =
     Inr ''Jordan Lee\<newline>\<newline>  Kim Roe \<newline>Jordan Lee''"
    by (simp add: read_result_def demo_world_def demo_fs_def)
  have dec: "decode demo_ext (Some ''utf-8'') ''Jordan Lee\<newline>\<newline>  Kim Roe \<newline>Jordan Lee'' =
     Some (map of_char ''Jordan Lee\<newline>\<newline>  Kim Roe \<newline>Jordan Lee'')"
    by (simp add: demo_ext_def)
  have sup: "faker_supports demo_ext ''en_US''" by (simp add: demo_ext_def)
  from name_list_lines [OF rd dec, of None "''en_US''"] sup
  obtain self where i: "NamePseudonymizer_init demo_ext (Some ''names.txt'') None ''en_US'' demo_world =
      (Inr self, demo_world\<lparr>io := io demo_world @ [OpenRead ''names.txt'']\<rparr>)"
    and n: "names self = map strip (file_lines (universal_newlines
      (map of_char ''Jordan Lee\<newline>\<newline>  Kim Roe \<newline>Jordan Lee'')))"
    by blast
  note f = init_Inr(1-3) [OF i]
  have "self = \<lparr>names = [py ''Jordan Lee'', [], py ''Kim Roe'', py ''Jordan Lee''], gender = None,
          locale_id = ''en_US'', fake = Faker ''en_US''\<rparr>"
    using n f unfolding demo_names_lines by (cases self) simp
  with i rd show ?thesis by simp
qed

section \<open>Properties of \<open>main\<close>\<close>


lemma init_fst_indep:
  "fs w2 = fs w \<Longrightarrow>
   fst (NamePseudonymizer_init ext p g l w2) = fst (NamePseudonymizer_init ext p g l w)"
  by (auto simp: NamePseudonymizer_init_def Let_def open_read_def
      split: if_splits option.splits sum.splits error.splits prod.splits)

lemma startup_frame:
  "fs (startup a w) = fs w" "events (startup a w) = events w" "stdout (startup a w) = stdout w"
  "io (startup a w) = io w" "log_level (startup a w) = log_level_arg a"
  by (simp_all add: startup_def log_msg_def Let_def)




lemma main_init_ok:
  assumes "NamePseudonymizer_init ext (name_list a) (gender_arg a) (locale_arg a) (startup a w) =
      (Inr ps, w3)"
  shows "main ext a w = process ext a ps w3"
  using assms by (simp add: main_def)


lemma print_fields:
  "fs (print m w) = fs w" "io (print m w) = io w" "stdout (print m w) = stdout w @ [m]"
  "events (print m w) = events w" "logs (print m w) = logs w"
  by (simp_all add: print_def)

lemma log_msg_fields:
  "fs (log_msg v m w) = fs w" "io (log_msg v m w) = io w" "stdout (log_msg v m w) = stdout w"
  "events (log_msg v m w) = events w"
  by (simp_all add: log_msg_def)




text \<open>
  C9, as amended.  When a non-empty name-list path is given and no file exists there,
  \<open>main\<close> exits with status 1 and leaves the file system as it was.  When the generator
  accepts the locale, the construction fails with the \<open>FileNotFoundError\<close> of that
  path, which is the one message printed, and the only file the run tried to open is the
  name list: the input is never opened.  When the generator rejects the locale, its error
  comes first and no file is opened at all.
\<close>

theorem missing_name_list:
  assumes nl: "name_list a = Some p" and ne: "p \<noteq> []" and ab: "fs w p = Absent"
  shows "fst (main ext a w) = 1 \<and> fs (snd (main ext a w)) = fs w \<and>
    (faker_supports ext (locale_arg a) \<longrightarrow>
       fst (NamePseudonymizer_init ext (name_list a) (gender_arg a) (locale_arg a) w) =
         Inl (FileNotFoundError p) \<and>
       new_stdout w (snd (main ext a w)) = [PlainError (FileNotFoundError p)] \<and>
       new_io w (snd (main ext a w)) = [OpenRead p]) \<and>
    (\<not> faker_supports ext (locale_arg a) \<longrightarrow>
       new_stdout w (snd (main ext a w)) = [InitError (LocaleError (locale_arg a))] \<and>
       new_io w (snd (main ext a w)) = [])"
proof (cases "faker_supports ext (locale_arg a)")
  case True
  have r: "read_result (fs (startup a w)) p = Inl (FileNotFoundError p)"
    using ab ne by (simp add: read_result_def startup_frame)
  have i: "NamePseudonymizer_init ext (name_list a) (gender_arg a) (locale_arg a) (startup a w) =
      (Inl (FileNotFoundError p),
       log_msg ERROR (NameListNotFound p) ((startup a w)\<lparr>io := io (startup a w) @ [OpenRead p]\<rparr>))"
    using True nl ne r by (simp add: NamePseudonymizer_init_def open_read_def)
  have m: "main ext a w =
      (1, print (PlainError (FileNotFoundError p))
            (log_msg ERROR (NameListNotFound p)
               ((startup a w)\<lparr>io := io (startup a w) @ [OpenRead p]\<rparr>)))"
    using i by (simp add: main_def)
  have i0: "fst (NamePseudonymizer_init ext (name_list a) (gender_arg a) (locale_arg a) w) =
      Inl (FileNotFoundError p)"
    using init_fst_indep [of "startup a w" w ext "name_list a" "gender_arg a" "locale_arg a"] i
    by (simp add: startup_frame)
  from m i0 True show ?thesis
    by (simp add: new_io_def new_stdout_def print_fields log_msg_fields startup_frame)
next
  case False
  have i: "NamePseudonymizer_init ext (name_list a) (gender_arg a) (locale_arg a) (startup a w) =
      (Inl (LocaleError (locale_arg a)), startup a w)"
    using False by (simp add: NamePseudonymizer_init_def)
  have m: "main ext a w = (1, print (InitError (LocaleError (locale_arg a))) (startup a w))"
    using i by (simp add: main_def)
  from m False show ?thesis
    by (simp add: new_io_def new_stdout_def print_fields startup_frame)
qed

text \<open>C9 instantiated on a name-list path with no file, with the locale \<open>en_US\<close>.\<close>

theorem missing_name_list_witness:
  "name_list (demo_args\<lparr>name_list := Some ''nolist.txt''\<rparr>) = Some ''nolist.txt'' \<and>
   fs demo_world ''nolist.txt'' = Absent \<and>
   fst (main demo_ext (demo_args\<lparr>name_list := Some ''nolist.txt''\<rparr>) demo_world) = 1 \<and>
   new_stdout demo_world (snd (main demo_ext (demo_args\<lparr>name_list := Some ''nolist.txt''\<rparr>) demo_world)) =
     [PlainError (FileNotFoundError ''nolist.txt'')] \<and>
   new_io demo_world (snd (main demo_ext (demo_args\<lparr>name_list := Some ''nolist.txt''\<rparr>) demo_world)) =
     [OpenRead ''nolist.txt'']"
proof -
  let ?a = "demo_args\<lparr>name_list := Some ''nolist.txt''\<rparr>"
  have nl: "name_list ?a = Some ''nolist.txt''" by simp
  have ne: "''nolist.txt'' \<noteq> []" by simp
  have ab: "fs demo_world ''nolist.txt'' = Absent" by (simp add: demo_world_def demo_fs_def)
  have sup: "faker_supports demo_ext (locale_arg ?a)" by (simp add: demo_ext_def demo_args_def)
  from missing_name_list [OF nl ne ab, of demo_ext] sup nl ab show ?thesis by blast
qed

text \<open>
  C9 as stated fails for the empty path: no file exists at it, but the constructor does
  not try to read it (\<open>if name_list_path:\<close>), the construction succeeds, and the run
  goes on to open the input and write the output with status 0.
\<close>

theorem empty_path_counterexample:
  "name_list (demo_args\<lparr>name_list := Some []\<rparr>) = Some [] \<and>
   read_result (fs demo_world) [] = Inl (FileNotFoundError []) \<and>
   fst (NamePseudonymizer_init demo_ext (Some []) None ''en_US'' demo_world) =
     Inr \<lparr>names = [], gender = None, locale_id = ''en_US'', fake = Faker ''en_US''\<rparr> \<and>
   fst (main demo_ext (demo_args\<lparr>name_list := Some []\<rparr>) demo_world) = 0 \<and>
   new_io demo_world (snd (main demo_ext (demo_args\<lparr>name_list := Some []\<rparr>) demo_world)) =
     [OpenRead ''in.txt'', OpenRead ''in.txt'', OpenWrite ''out.txt'']"
proof -
  have 1: "read_result (fs demo_world) [] = Inl (FileNotFoundError [])"
    by (simp add: read_result_def)
  have 2: "fst (NamePseudonymizer_init demo_ext (Some []) None ''en_US'' demo_world) =
     Inr \<lparr>names = [], gender = None, locale_id = ''en_US'', fake = Faker ''en_US''\<rparr>"
    by (simp add: NamePseudonymizer_init_def demo_ext_def)
  have 3: "fst (main demo_ext (demo_args\<lparr>name_list := Some []\<rparr>) demo_world) = 0 \<and>
     new_io demo_world (snd (main demo_ext (demo_args\<lparr>name_list := Some []\<rparr>) demo_world)) =
     [OpenRead ''in.txt'', OpenRead ''in.txt'', OpenWrite ''out.txt'']"
    by (simp add: main_def process_def startup_def NamePseudonymizer_init_def open_read_def
        read_result_def write_output_def print_def log_msg_def new_io_def
        demo_args_def demo_ext_def demo_world_def demo_fs_def demo_unwritable_def eval_defs)
  from 1 2 3 show ?thesis by simp
qed

lemma replace_name_keeps:
  assumes "replace_name ext self m s = (r, s')"
  shows "fs s' = fs s \<and> io s' = io s \<and> stdout s' = stdout s \<and> logs s' = logs s \<and>
    log_level s' = log_level s"
proof (cases "names self")
  case Nil
  obtain l where l: "fake self = Faker l" by (cases "fake self")
  show ?thesis using assms Nil l
    by (auto simp: replace_name_def generate_pseudonym_def split: if_splits prod.splits)
next
  case (Cons x xs)
  then show ?thesis using assms
    by (auto simp: replace_name_def generate_pseudonym_def random_choice_def Let_def)
qed

lemma pseudonymize_text_keeps:
  assumes "pseudonymize_text ext self text w = (out, w')"
  shows "fs w' = fs w" "io w' = io w" "stdout w' = stdout w" "logs w' = logs w"
    "log_level w' = log_level w"
proof -
  have sub: "substitute (replace_name ext self) (scan (uni_alnum ext) name_pattern None text) w =
      (out, w')"
    using assms by (simp add: pseudonymize_text_substitute)
  have cb: "(fs s', io s', stdout s', logs s', log_level s') =
      (fs s, io s, stdout s, logs s, log_level s)"
    if "replace_name ext self m s = (r, s')" for m r and s s' :: "'a world"
    using replace_name_keeps [OF that] by simp
  have "(fs w', io w', stdout w', logs w', log_level w') =
      (fs w, io w, stdout w, logs w, log_level w)"
    by (rule substitute_preserves
        [of "replace_name ext self" "\<lambda>s. (fs s, io s, stdout s, logs s, log_level s)", OF _ sub])
      (rule cb)
  then show "fs w' = fs w" "io w' = io w" "stdout w' = stdout w" "logs w' = logs w"
    "log_level w' = log_level w"
    by simp_all
qed

lemma generate_pseudonym_empty:
  assumes "names self = []" "fake self = Faker l"
  shows "generate_pseudonym ext self w = faker_call ext (Faker l) (gender_op (gender self)) w"
  using assms by (simp add: generate_pseudonym_def gender_op_def del: faker_call.simps)

lemma faker_call_event:
  assumes "faker_call ext (Faker l) k w = (r, w')"
  shows "events w' = events w @ [FakerName l k r]"
  using assms by (auto split: prod.splits)

lemma pseudonymize_text_generated:
  assumes run: "pseudonymize_text ext self text w = (out, w')"
    and empty: "names self = []" and fk: "fake self = Faker l"
  shows "\<exists>es. events w' = events w @ es \<and>
     list_all (\<lambda>e. e = FakerName l (gender_op (gender self)) (event_result e)) es"
proof -
  have sub: "substitute (replace_name ext self) (scan (uni_alnum ext) name_pattern None text) w =
      (out, w')"
    using run by (simp add: pseudonymize_text_substitute)
  have "\<exists>es. events w' = events w @ es \<and>
      length es = length (filter is_hit (scan (uni_alnum ext) name_pattern None text)) \<and>
      out = fill (scan (uni_alnum ext) name_pattern None text) (map event_result es) \<and>
      list_all (\<lambda>e. e = FakerName l (gender_op (gender self)) (event_result e)) es"
  proof (rule substitute_events [OF _ sub])
    fix m s r s'
    assume "replace_name ext self m s = (r, s')"
    then have "faker_call ext (Faker l) (gender_op (gender self)) s = (r, s')"
      using generate_pseudonym_empty [OF empty fk, of ext s]
      by (simp add: replace_name_def del: faker_call.simps)
    from faker_call_event [OF this]
    show "\<exists>e. events s' = events s @ [e] \<and> event_result e = r \<and>
        e = FakerName l (gender_op (gender self)) (event_result e)"
      by simp
  qed
  then show ?thesis by blast
qed

lemma write_output_keeps:
  assumes "write_output ext p t w = (res, w')"
  shows "events w' = events w" "logs w' = logs w" "stdout w' = stdout w"
    "log_level w' = log_level w"
  using assms
  by (auto simp: write_output_def Let_def split: if_splits option.splits)

lemma write_output_unwritable:
  assumes "p \<noteq> []" and "unwritable w p = Some e"
  shows "write_output ext p t w = (Some e, w\<lparr>io := io w @ [OpenWrite p]\<rparr>)"
  using assms by (simp add: write_output_def)

lemma main_output_directory_missing:
  "fst (main demo_ext (demo_args\<lparr>output_file := ''nodir/out.txt''\<rparr>) demo_world) = 1 \<and>
   new_stdout demo_world
     (snd (main demo_ext (demo_args\<lparr>output_file := ''nodir/out.txt''\<rparr>) demo_world)) =
     [WriteError (FileNotFoundError ''nodir/out.txt'')] \<and>
   fs (snd (main demo_ext (demo_args\<lparr>output_file := ''nodir/out.txt''\<rparr>) demo_world)) =
     demo_fs"
  by (simp add: main_def process_def startup_def NamePseudonymizer_init_def open_read_def
      read_result_def write_output_def print_def log_msg_def new_stdout_def
      demo_args_def demo_ext_def demo_world_def demo_fs_def demo_unwritable_def eval_defs)

lemma log_msg_logs: "\<exists>ls. logs (log_msg v m w) = logs w @ ls"
  by (simp add: log_msg_def)

lemma process_cases:
  obtains (unreadable) e where
      "read_result (fs w3) (input_file a) = Inl e"
      "process ext a ps w3 =
         (1, print (Unexpected e)
               (log_msg CRITICAL (Unexpected e) (w3\<lparr>io := io w3 @ [OpenRead (input_file a)]\<rparr>)))"
  | (undecodable) b where
      "read_result (fs w3) (input_file a) = Inr b"
      "decode ext (detect ext b) b = None"
      "process ext a ps w3 =
         (1, print (InputReadError UnicodeDecodeError)
               (log_msg ERROR (InputReadError UnicodeDecodeError)
                  (w3\<lparr>io := io w3 @ [OpenRead (input_file a), OpenRead (input_file a)]\<rparr>)))"
  | (substituted) b t out w6 res w7 where
      "read_result (fs w3) (input_file a) = Inr b"
      "decode ext (detect ext b) b = Some t"
      "pseudonymize_text ext ps (universal_newlines t)
         (w3\<lparr>io := io w3 @ [OpenRead (input_file a), OpenRead (input_file a)]\<rparr>) = (out, w6)"
      "write_output ext (output_file a) out w6 = (res, w7)"
      "process ext a ps w3 =
         (case res of
            Some e \<Rightarrow> (1, print (WriteError e) (log_msg ERROR (WriteError e) w7))
          | None \<Rightarrow>
              (0, print (Written (output_file a)) (log_msg INFO (Written (output_file a)) w7)))"
proof (cases "read_result (fs w3) (input_file a)")
  case (Inl e)
  then show ?thesis using unreadable [of e] by (simp add: process_def open_read_def)
next
  case (Inr b)
  show ?thesis
  proof (cases "decode ext (detect ext b) b")
    case None
    then show ?thesis using Inr undecodable [of b]
      by (simp add: process_def open_read_def)
  next
    case (Some t)
    let ?w5 = "w3\<lparr>io := io w3 @ [OpenRead (input_file a), OpenRead (input_file a)]\<rparr>"
    obtain out w6 where p: "pseudonymize_text ext ps (universal_newlines t) ?w5 = (out, w6)"
      by (cases "pseudonymize_text ext ps (universal_newlines t) ?w5")
    obtain res w7 where wr: "write_output ext (output_file a) out w6 = (res, w7)"
      by (cases "write_output ext (output_file a) out w6")
    have "process ext a ps w3 =
         (case res of
            Some e \<Rightarrow> (1, print (WriteError e) (log_msg ERROR (WriteError e) w7))
          | None \<Rightarrow>
              (0, print (Written (output_file a)) (log_msg INFO (Written (output_file a)) w7)))"
      using Inr Some p wr by (simp add: process_def open_read_def split: option.splits)
    with Inr Some p wr show ?thesis by (rule substituted)
  qed
qed

lemma process_logs: "\<exists>ls. logs (snd (process ext a ps w3)) = logs w3 @ ls"
proof (cases rule: process_cases [of w3 a ext ps])
  case (unreadable e)
  then show ?thesis by (simp add: print_def log_msg_def)
next
  case (undecodable b)
  then show ?thesis by (simp add: print_def log_msg_def)
next
  case (substituted b t out w6 res w7)
  have "logs w7 = logs w3"
    using pseudonymize_text_keeps(4) [OF substituted(3)] write_output_keeps(2) [OF substituted(4)]
    by simp
  then show ?thesis using substituted(5)
    by (cases res) (simp_all add: print_def log_msg_def)
qed

lemma process_events:
  assumes empty: "names ps = []" and fk: "fake ps = Faker l"
  shows "\<exists>es. events (snd (process ext a ps w3)) = events w3 @ es \<and>
     list_all (\<lambda>e. e = FakerName l (gender_op (gender ps)) (event_result e)) es"
proof (cases rule: process_cases [of w3 a ext ps])
  case (unreadable e)
  then show ?thesis by (simp add: print_fields log_msg_fields)
next
  case (undecodable b)
  then show ?thesis by (simp add: print_fields log_msg_fields)
next
  case (substituted b t out w6 res w7)
  from pseudonymize_text_generated [OF substituted(3) empty fk] obtain es where
    es: "events w6 = events w3 @ es"
    "list_all (\<lambda>e. e = FakerName l (gender_op (gender ps)) (event_result e)) es"
    by auto
  have "events w7 = events w3 @ es"
    using es(1) write_output_keeps(1) [OF substituted(4)] by simp
  then have "events (snd (process ext a ps w3)) = events w3 @ es"
    using substituted(5) by (cases res) (simp_all add: print_fields log_msg_fields)
  with es(2) show ?thesis by blast
qed

lemma input_not_found_unreachable:
  "InputNotFound q \<notin> set (new_stdout w3 (snd (process ext a ps w3)))"
proof (cases rule: process_cases [of w3 a ext ps])
  case (unreadable e)
  then show ?thesis by (simp add: new_stdout_def print_fields log_msg_fields)
next
  case (undecodable b)
  then show ?thesis by (simp add: new_stdout_def print_fields log_msg_fields)
next
  case (substituted b t out w6 res w7)
  have "stdout w7 = stdout w3"
    using pseudonymize_text_keeps(3) [OF substituted(3)] write_output_keeps(3) [OF substituted(4)]
    by simp
  then show ?thesis using substituted(5)
    by (cases res) (simp_all add: new_stdout_def print_fields log_msg_fields)
qed

text \<open>
  C10, as amended.  When the file at the name-list path exists and its text is empty, and
  the generator accepts the locale, the construction succeeds with an empty name list.  Every
  pseudonym is then one call of the generator operation the gender setting selects, for
  the configured locale: so is every pseudonym generated in a run of \<open>main\<close>.  This
  holds also when a gender was given and \<open>main\<close> has logged the warning that the gender
  is ignored in favour of the name list (logged when the level lets warnings through).
\<close>

theorem empty_name_list:
  assumes nl: "name_list a = Some p" and rd: "read_result (fs w) p = Inr b"
    and dec: "decode ext (Some ''utf-8'') b = Some []"
    and sup: "faker_supports ext (locale_arg a)"
  shows "fst (NamePseudonymizer_init ext (name_list a) (gender_arg a) (locale_arg a) w) =
      Inr \<lparr>names = [], gender = gender_arg a, locale_id = locale_arg a,
           fake = Faker (locale_arg a)\<rparr> \<and>
    (\<forall>w1. generate_pseudonym ext
            \<lparr>names = [], gender = gender_arg a, locale_id = locale_arg a,
             fake = Faker (locale_arg a)\<rparr> w1 =
          faker_call ext (Faker (locale_arg a)) (gender_op (gender_arg a)) w1) \<and>
    list_all (\<lambda>e. e = FakerName (locale_arg a) (gender_op (gender_arg a)) (event_result e))
      (new_events w (snd (main ext a w))) \<and>
    (truthy (gender_arg a) \<and> level_no (log_level_arg a) \<le> 30 \<longrightarrow>
       (WARNING, BothGiven) \<in> set (logs (snd (main ext a w))))"
proof -
  let ?self = "\<lparr>names = [], gender = gender_arg a, locale_id = locale_arg a,
      fake = Faker (locale_arg a)\<rparr>"
  let ?w3 = "(startup a w)\<lparr>io := io (startup a w) @ [OpenRead p]\<rparr>"
  have pne: "p \<noteq> []" using rd by (auto simp: read_result_def)
  have i0: "NamePseudonymizer_init ext (name_list a) (gender_arg a) (locale_arg a) w =
      (Inr ?self, w\<lparr>io := io w @ [OpenRead p]\<rparr>)"
    using init_read [OF rd dec sup, of "gender_arg a"] nl by simp
  have rd': "read_result (fs (startup a w)) p = Inr b" using rd by (simp add: startup_frame)
  have i: "NamePseudonymizer_init ext (name_list a) (gender_arg a) (locale_arg a) (startup a w) =
      (Inr ?self, ?w3)"
    using init_read [OF rd' dec sup, of "gender_arg a"] nl by simp
  have m: "main ext a w = process ext a ?self ?w3" using main_init_ok [OF i] .
  have 1: "fst (NamePseudonymizer_init ext (name_list a) (gender_arg a) (locale_arg a) w) =
      Inr ?self"
    using i0 by simp
  have 2: "\<forall>w1. generate_pseudonym ext ?self w1 =
      faker_call ext (Faker (locale_arg a)) (gender_op (gender_arg a)) w1"
    using generate_pseudonym_empty [of ?self "locale_arg a" ext] by simp
  from process_events [of ?self "locale_arg a" ext a ?w3] obtain es where
    es: "events (snd (process ext a ?self ?w3)) = events ?w3 @ es"
    "list_all (\<lambda>e. e = FakerName (locale_arg a) (gender_op (gender_arg a)) (event_result e)) es"
    by auto
  have "events (snd (main ext a w)) = events w @ es"
    using es(1) m by (simp add: startup_frame)
  then have "new_events w (snd (main ext a w)) = es" by (rule new_events_append)
  with es(2) have 3: "list_all
      (\<lambda>e. e = FakerName (locale_arg a) (gender_op (gender_arg a)) (event_result e))
      (new_events w (snd (main ext a w)))"
    by simp
  have 4: "(WARNING, BothGiven) \<in> set (logs (snd (main ext a w)))"
    if "truthy (gender_arg a) \<and> level_no (log_level_arg a) \<le> 30"
  proof -
    have "logs (startup a w) = logs w @ [(WARNING, BothGiven)]"
      using that nl pne by (simp add: startup_def log_msg_def)
    moreover obtain ls where "logs (snd (process ext a ?self ?w3)) = logs ?w3 @ ls"
      using process_logs [of ext a ?self ?w3] by blast
    ultimately show ?thesis using m by simp
  qed
  from 1 2 3 4 show ?thesis by blast
qed

text \<open>
  C10 instantiated on an empty name-list file with the gender \<open>male\<close>: the warning is
  logged and the one pseudonym of the run is a male name of the generator.
\<close>

theorem empty_name_list_witness:
  "read_result (fs demo_world) ''empty.txt'' = Inr [] \<and>
   fst (NamePseudonymizer_init demo_ext (Some ''empty.txt'') (Some ''male'') ''en_US'' demo_world) =
     Inr \<lparr>names = [], gender = Some ''male'', locale_id = ''en_US'', fake = Faker ''en_US''\<rparr> \<and>
   list_all (\<lambda>e. e = FakerName ''en_US'' NameMale (event_result e))
     (new_events demo_world
        (snd (main demo_ext (demo_args\<lparr>name_list := Some ''empty.txt'', gender_arg := Some ''male''\<rparr>)
                demo_world))) \<and>
   (WARNING, BothGiven) \<in>
     set (logs (snd (main demo_ext
        (demo_args\<lparr>name_list := Some ''empty.txt'', gender_arg := Some ''male''\<rparr>) demo_world))) \<and>
   new_events demo_world
     (snd (main demo_ext (demo_args\<lparr>name_list := Some ''empty.txt'', gender_arg := Some ''male''\<rparr>)
             demo_world)) =
     [FakerName ''en_US'' NameMale (py ''John Doe'')]"
proof -
  have ev: "new_events demo_world
     (snd (main demo_ext (demo_args\<lparr>name_list := Some ''empty.txt'', gender_arg := Some ''male''\<rparr>)
             demo_world)) =
     [FakerName ''en_US'' NameMale (py ''John Doe'')]"
    by (simp add: main_def process_def startup_def NamePseudonymizer_init_def open_read_def
        read_result_def write_output_def print_def log_msg_def new_events_def
        demo_args_def demo_ext_def demo_world_def demo_fs_def demo_unwritable_def eval_defs)
  let ?a = "demo_args\<lparr>name_list := Some ''empty.txt'', gender_arg := Some ''male''\<rparr>"
  have nl: "name_list ?a = Some ''empty.txt''" by simp
  have rd: "read_result (fs demo_world) ''empty.txt'' = Inr []"
    by (simp add: read_result_def demo_world_def demo_fs_def)
  have dec: "decode demo_ext (Some ''utf-8'') [] = Some []" by (simp add: demo_ext_def)
  have sup: "faker_supports demo_ext (locale_arg ?a)" by (simp add: demo_ext_def demo_args_def)
  have g: "gender_arg ?a = Some ''male''" "locale_arg ?a = ''en_US''" "log_level_arg ?a = INFO"
    by (simp_all add: demo_args_def)
  have op: "gender_op (Some ''male'') = NameMale" by (simp add: gender_op_def)
  from empty_name_list [OF nl rd dec sup] rd ev show ?thesis
    unfolding g nl op by simp
qed

text \<open>
  C10 as stated, with no condition on the locale, fails: the generator is constructed
  before the name list is read, so with an empty name-list file and a locale the
  generator rejects the construction fails, \<open>main\<close> exits with status 1 and no
  pseudonym is generated.
\<close>

theorem empty_name_list_locale_counterexample:
  "read_result (fs demo_world) ''empty.txt'' = Inr [] \<and>
   fst (NamePseudonymizer_init demo_ext (Some ''empty.txt'') (Some ''male'') ''xx_XX'' demo_world) =
     Inl (LocaleError ''xx_XX'') \<and>
   fst (main demo_ext
          (demo_args\<lparr>name_list := Some ''empty.txt'', gender_arg := Some ''male'',
             locale_arg := ''xx_XX''\<rparr>) demo_world) = 1 \<and>
   new_events demo_world
     (snd (main demo_ext
             (demo_args\<lparr>name_list := Some ''empty.txt'', gender_arg := Some ''male'',
                locale_arg := ''xx_XX''\<rparr>) demo_world)) = [] \<and>
   new_stdout demo_world
     (snd (main demo_ext
             (demo_args\<lparr>name_list := Some ''empty.txt'', gender_arg := Some ''male'',
                locale_arg := ''xx_XX''\<rparr>) demo_world)) = [InitError (LocaleError ''xx_XX'')]"
proof -
  let ?a = "demo_args\<lparr>name_list := Some ''empty.txt'', gender_arg := Some ''male'',
      locale_arg := ''xx_XX''\<rparr>"
  have 1: "read_result (fs demo_world) ''empty.txt'' = Inr []"
    by (simp add: read_result_def demo_world_def demo_fs_def)
  have 2: "fst (NamePseudonymizer_init demo_ext (Some ''empty.txt'') (Some ''male'') ''xx_XX''
      demo_world) = Inl (LocaleError ''xx_XX'')"
    by (simp add: NamePseudonymizer_init_def demo_ext_def)
  have 3: "main demo_ext ?a demo_world =
      (1, print (InitError (LocaleError ''xx_XX'')) (startup ?a demo_world))"
    by (simp add: main_def NamePseudonymizer_init_def demo_ext_def demo_args_def)
  show ?thesis unfolding 3 using 1 2
    by (simp add: new_stdout_def new_events_def print_fields startup_frame)
qed

section \<open>The scenario of the specification\<close>

text \<open>
  C4.  With the name list \<open>["Jordan Lee"]\<close>, whatever the other settings, the
  collaborators and the state of the random source, \<open>pseudonymize_text\<close> turns
  \<open>"Alice Smith went to New York with Bob Jones."\<close> into
  \<open>"Jordan Lee went to Jordan Lee with Jordan Lee."\<close>; the pattern matches
  \<open>"Alice Smith"\<close>, \<open>"New York"\<close> and \<open>"Bob Jones"\<close>.
\<close>

theorem scenario_jordan_lee:
  "fst (pseudonymize_text ext (self\<lparr>names := [py ''Jordan Lee'']\<rparr>)
          (py ''Alice Smith went to New York with Bob Jones.'') w) =
     py ''Jordan Lee went to Jordan Lee with Jordan Lee.'' \<and>
   finditer (uni_alnum ext) name_pattern (py ''Alice Smith went to New York with Bob Jones.'') =
     [py ''Alice Smith'', py ''New York'', py ''Bob Jones'']"
proof
  show "fst (pseudonymize_text ext (self\<lparr>names := [py ''Jordan Lee'']\<rparr>)
          (py ''Alice Smith went to New York with Bob Jones.'') w) =
     py ''Jordan Lee went to Jordan Lee with Jordan Lee.''"
    by (simp add: eval_defs)
  show "finditer (uni_alnum ext) name_pattern (py ''Alice Smith went to New York with Bob Jones.'') =
     [py ''Alice Smith'', py ''New York'', py ''Bob Jones'']"
    by (simp add: eval_defs)
qed

end
